theory Spec2Isabelle
  imports Complex_Main "HOL-Library.Word" "HOL-Library.Monad_Syntax" "HOL-Library.Sublist"
    "HOL-Library.Multiset"
begin

unbundle bit_operations_syntax

section \<open>The vocabulary of fastText: a shallow embedding of \<^verbatim>\<open>src/dictionary.cc\<close>\<close>

text \<open>
  The development follows \<^verbatim>\<open>dictionary.cc\<close> function by function.  Conventions:

  \<^item> A C++ member \<^verbatim>\<open>name_\<close> is the record field \<open>name_m\<close> (an identifier of the
    logic cannot end in an underscore).
  \<^item> A member function that can fail to return normally yields an \<open>option\<close>:
    \<open>None\<close> stands for a loop that never ends, a failed \<^verbatim>\<open>assert\<close>, a call of
    \<^verbatim>\<open>exit\<close>, or undefined behaviour (a read out of range, a division by zero, a
    read of an uninitialised variable).  Every definition says which of these it has.
  \<^item> \<^verbatim>\<open>char\<close> is a signed 8-bit type, as on the x86 ABIs the Makefile targets.  The
    tokenizer depends on it: \<^verbatim>\<open>readWord\<close> stores \<^verbatim>\<open>sbumpc()\<close> in a \<^verbatim>\<open>char\<close> and
    compares it with \<^verbatim>\<open>EOF\<close>, a test that can only succeed for a signed \<^verbatim>\<open>char\<close>.
  \<^item> \<^verbatim>\<open>int32_t\<close>, \<^verbatim>\<open>int64_t\<close> counters and ids are \<open>int\<close>; the 32-bit and 64-bit
    hash arithmetic, where wrap-around is the point, is on \<open>32 word\<close> and \<open>64 word\<close>.
  \<^item> \<^verbatim>\<open>dictionary.h\<close> is not part of the sources at hand.  Its constants
    \<^verbatim>\<open>MAX_VOCAB_SIZE\<close> and \<^verbatim>\<open>MAX_LINE_SIZE\<close> are parameters \<open>cap\<close> and \<open>mls\<close> of
    the functions that use them.
\<close>

subsection \<open>Data model\<close>

datatype entry_type = entry_word | entry_label

datatype model_name = cbow | sg | sup

record entry =
  word :: string
  count :: int
  type :: entry_type
  subwords :: "int list"

text \<open>The fields of \<^verbatim>\<open>Args\<close> that \<^verbatim>\<open>dictionary.cc\<close> reads.  \<open>sampling_t\<close> is \<^verbatim>\<open>args_->t\<close>.\<close>

record args =
  label :: string
  minn :: int
  maxn :: int
  bucket :: int
  wordNgrams :: int
  model :: model_name
  sampling_t :: real

text \<open>
  \<open>word2int_m\<close> is the vector of \<^verbatim>\<open>MAX_VOCAB_SIZE\<close> slots, read at the slots below \<open>cap\<close>
  only; \<open>quantidx_m\<close> is the \<^verbatim>\<open>unordered_map\<close> of the quantization, as the list of its
  (key, value) pairs with distinct keys.
\<close>

record dictionary =
  args_m :: args
  words_m :: "entry list"
  word2int_m :: "nat \<Rightarrow> int"
  size_m :: int
  nwords_m :: int
  nlabels_m :: int
  ntokens_m :: int
  pdiscard_m :: "real list"
  quant_m :: bool
  quantidx_m :: "(int \<times> int) list"

definition EOS :: string where "EOS = ''</s>''"
definition BOW :: string where "BOW = ''<''"
definition EOW :: string where "EOW = ''>''"

text \<open>The constructor \<^verbatim>\<open>Dictionary::Dictionary\<close>.\<close>

definition Dictionary :: "args \<Rightarrow> dictionary" where
  "Dictionary a =
     \<lparr>args_m = a, words_m = [], word2int_m = (\<lambda>_. - 1), size_m = 0, nwords_m = 0,
      nlabels_m = 0, ntokens_m = 0, pdiscard_m = [], quant_m = False, quantidx_m = []\<rparr>"

subsection \<open>Conversions of the machine\<close>

text \<open>The value of a \<^verbatim>\<open>char\<close>: the byte read as two's complement.\<close>

definition schar :: "char \<Rightarrow> int" where
  "schar c = (if (of_char c :: nat) < 128 then int (of_char c) else int (of_char c) - 256)"

text \<open>\<^verbatim>\<open>uint32_t(c)\<close> for a \<^verbatim>\<open>char c\<close>: the signed value modulo \<open>2 ^ 32\<close> (sign extension).\<close>

definition uint32_t :: "char \<Rightarrow> 32 word" where
  "uint32_t c = word_of_int (schar c)"

subsection \<open>\<^verbatim>\<open>Dictionary::hash\<close>\<close>

function hash_loop :: "string \<Rightarrow> nat \<Rightarrow> 32 word \<Rightarrow> 32 word" where
  "hash_loop str i h =
     (if i < length str
      then hash_loop str (i + 1) ((h XOR uint32_t (str ! i)) * 16777619)
      else h)"
  by pat_completeness auto
termination
  by (relation "measure (\<lambda>(str, i, h). length str - i)") auto

declare hash_loop.simps [simp del]

definition hash :: "string \<Rightarrow> 32 word" where
  "hash str = hash_loop str 0 2166136261"

text \<open>
  The 32-bit FNV-1a hash as the specification words it, on natural numbers with the
  reduction modulo \<open>2 ^ 32\<close> written out: from the offset basis, each byte value
  (\<open>0 .. 255\<close>) is XORed into the accumulator, which is then multiplied by the prime.
\<close>

definition fnv1a_step :: "char \<Rightarrow> nat \<Rightarrow> nat" where
  "fnv1a_step c h = ((h XOR of_char c) * 16777619) mod 2 ^ 32"

definition fnv1a :: "string \<Rightarrow> nat" where
  "fnv1a s = fold fnv1a_step s 2166136261"

text \<open>The fold that the code computes: the same, on the sign-extended \<^verbatim>\<open>char\<close>.\<close>

definition fnv1a_signed_step :: "char \<Rightarrow> nat \<Rightarrow> nat" where
  "fnv1a_signed_step c h = ((h XOR nat (schar c mod 2 ^ 32)) * 16777619) mod 2 ^ 32"

definition fnv1a_signed :: "string \<Rightarrow> nat" where
  "fnv1a_signed s = fold fnv1a_signed_step s 2166136261"

subsection \<open>\<^verbatim>\<open>Dictionary::find\<close>, \<^verbatim>\<open>getId\<close>, \<^verbatim>\<open>add\<close>\<close>

text \<open>
  The probing loop of \<^verbatim>\<open>find\<close>, from slot \<open>h\<close>.  \<open>None\<close>: the loop never ends (no empty
  slot and no match), or a slot holds an id that is no position of \<^verbatim>\<open>words_\<close> (the
  unchecked read \<^verbatim>\<open>words_[word2int_[h]]\<close> is then undefined).
\<close>

partial_function (option) find_loop :: "nat \<Rightarrow> dictionary \<Rightarrow> string \<Rightarrow> nat \<Rightarrow> nat option" where
  "find_loop cap d w h =
     (let i = word2int_m d h in
      if i = - 1 then Some h
      else if i < 0 \<or> int (length (words_m d)) \<le> i then None
      else if word (words_m d ! nat i) \<noteq> w then find_loop cap d w ((h + 1) mod cap)
      else Some h)"

definition find :: "nat \<Rightarrow> dictionary \<Rightarrow> string \<Rightarrow> nat option" where
  "find cap d w = find_loop cap d w (unat (hash w) mod cap)"

definition getId :: "nat \<Rightarrow> dictionary \<Rightarrow> string \<Rightarrow> int option" where
  "getId cap d w = do { h \<leftarrow> find cap d w; Some (word2int_m d h) }"

text \<open>\<^verbatim>\<open>w.find(args_->label) == 0\<close>: the label marker is a prefix of \<open>w\<close>.\<close>

definition add :: "nat \<Rightarrow> dictionary \<Rightarrow> string \<Rightarrow> dictionary option" where
  "add cap d w = do {
     h \<leftarrow> find cap d w;
     let d1 = d\<lparr>ntokens_m := ntokens_m d + 1\<rparr>;
     if word2int_m d1 h = - 1 then
       let e = \<lparr>word = w, count = 1,
                type = (if prefix (label (args_m d1)) w then entry_label else entry_word),
                subwords = []\<rparr>
       in Some (d1\<lparr>words_m := words_m d1 @ [e],
                    word2int_m := (word2int_m d1)(h := size_m d1),
                    size_m := size_m d1 + 1\<rparr>)
     else
       let i = nat (word2int_m d1 h)
       in Some (d1\<lparr>words_m := (words_m d1)[i := (words_m d1 ! i)\<lparr>count := count (words_m d1 ! i) + 1\<rparr>]\<rparr>)
   }"

text \<open>
  The slot that the \<open>k\<close>-th probe for \<open>w\<close> inspects, and what it means for the index to
  agree with the store: \<^verbatim>\<open>size_\<close> is the number of entries, every slot is empty or holds
  a position of the store, and every entry is met on the probe path of its own word
  before any empty slot.
\<close>

definition probe :: "nat \<Rightarrow> string \<Rightarrow> nat \<Rightarrow> nat" where
  "probe cap w k = (unat (hash w) mod cap + k) mod cap"

definition index_consistent :: "nat \<Rightarrow> dictionary \<Rightarrow> bool" where
  "index_consistent cap d \<longleftrightarrow>
     size_m d = int (length (words_m d)) \<and>
     (\<forall>h<cap. word2int_m d h = - 1 \<or> (0 \<le> word2int_m d h \<and> word2int_m d h < size_m d)) \<and>
     (\<forall>i<length (words_m d). \<exists>k<cap.
         word2int_m d (probe cap (word (words_m d ! i)) k) = int i \<and>
         (\<forall>j<k. word2int_m d (probe cap (word (words_m d ! i)) j) \<noteq> - 1))"

definition has_empty_slot :: "nat \<Rightarrow> dictionary \<Rightarrow> bool" where
  "has_empty_slot cap d \<longleftrightarrow> (\<exists>h<cap. word2int_m d h = - 1)"

text \<open>
  What one probe does: the loop stops at a slot that is empty or holds an entry of the
  word, and passes a slot that holds an entry of another word.
\<close>

definition slot_stops :: "dictionary \<Rightarrow> string \<Rightarrow> nat \<Rightarrow> bool" where
  "slot_stops d w h \<longleftrightarrow>
     word2int_m d h = - 1 \<or>
     (0 \<le> word2int_m d h \<and> word2int_m d h < int (length (words_m d)) \<and>
      word (words_m d ! nat (word2int_m d h)) = w)"

definition slot_passes :: "dictionary \<Rightarrow> string \<Rightarrow> nat \<Rightarrow> bool" where
  "slot_passes d w h \<longleftrightarrow>
     0 \<le> word2int_m d h \<and> word2int_m d h < int (length (words_m d)) \<and>
     word (words_m d ! nat (word2int_m d h)) \<noteq> w"

definition occupied :: "nat \<Rightarrow> dictionary \<Rightarrow> nat set" where
  "occupied cap d = {h. h < cap \<and> word2int_m d h \<noteq> - 1}"

text \<open>
  The state that \<^verbatim>\<open>add\<close>, \<^verbatim>\<open>threshold\<close> and \<^verbatim>\<open>load\<close> maintain: the index agrees
  with the store, no word is stored twice, and there are no more occupied slots than
  entries.
\<close>

definition store_ok :: "nat \<Rightarrow> dictionary \<Rightarrow> bool" where
  "store_ok cap d \<longleftrightarrow>
     index_consistent cap d \<and> distinct (map word (words_m d)) \<and>
     card (occupied cap d) \<le> length (words_m d)"

text \<open>The calls \<^verbatim>\<open>add(w)\<close> for the tokens of a sequence, in order.\<close>

fun add_tokens :: "nat \<Rightarrow> dictionary \<Rightarrow> string list \<Rightarrow> dictionary option" where
  "add_tokens cap d [] = Some d"
| "add_tokens cap d (w # ws) = do { d1 \<leftarrow> add cap d w; add_tokens cap d1 ws }"

subsection \<open>\<^verbatim>\<open>Dictionary::threshold\<close>\<close>

text \<open>
  Modelled from the spec: the numbering of \<^verbatim>\<open>enum class entry_type\<close> is in
  \<^verbatim>\<open>dictionary.h\<close>, which is not at hand; the specification sorts "type ascending" with
  words before labels, so \<^verbatim>\<open>word\<close> is 0 and \<^verbatim>\<open>label\<close> is 1.
\<close>

definition type_rank :: "entry_type \<Rightarrow> nat" where
  "type_rank ty = (case ty of entry_word \<Rightarrow> 0 | entry_label \<Rightarrow> 1)"

text \<open>The comparator that \<^verbatim>\<open>threshold\<close> gives to \<^verbatim>\<open>std::sort\<close>.\<close>

definition entry_less :: "entry \<Rightarrow> entry \<Rightarrow> bool" where
  "entry_less e1 e2 =
     (if type e1 \<noteq> type e2 then type_rank (type e1) < type_rank (type e2)
      else count e1 > count e2)"

text \<open>
  \<^verbatim>\<open>std::sort\<close> is not stable, and the order it gives to entries that the comparator
  does not separate is up to the library.  \<^verbatim>\<open>threshold\<close> therefore takes the sorting
  routine as a parameter \<open>srt\<close>, of which only the contract of \<^verbatim>\<open>std::sort\<close> is
  known: the result is a rearrangement of the input in which no later element is less
  than an earlier one.  \<open>insertion_sort\<close> is one routine with this contract.
\<close>

definition std_sort_contract :: "(entry list \<Rightarrow> entry list) \<Rightarrow> bool" where
  "std_sort_contract srt \<longleftrightarrow>
     (\<forall>xs. mset (srt xs) = mset xs \<and> sorted_wrt (\<lambda>a b. \<not> entry_less b a) (srt xs))"

fun insert_entry :: "entry \<Rightarrow> entry list \<Rightarrow> entry list" where
  "insert_entry e [] = [e]"
| "insert_entry e (x # xs) = (if entry_less x e then x # insert_entry e xs else e # x # xs)"

definition insertion_sort :: "entry list \<Rightarrow> entry list" where
  "insertion_sort xs = foldr insert_entry xs []"

text \<open>The predicate of \<^verbatim>\<open>remove_if\<close>: the entries below their cutoff.\<close>

definition below_cutoff :: "int \<Rightarrow> int \<Rightarrow> entry \<Rightarrow> bool" where
  "below_cutoff t tlab e \<longleftrightarrow>
     (type e = entry_word \<and> count e < t) \<or> (type e = entry_label \<and> count e < tlab)"

text \<open>
  The loop that rebuilds the index, over the entries that the iterator still has to
  visit; \<open>index_entry\<close> is its body after the call of \<^verbatim>\<open>find\<close>.  \<open>None\<close> when a call of
  \<^verbatim>\<open>find\<close> does not return.
\<close>

definition index_entry :: "dictionary \<Rightarrow> nat \<Rightarrow> entry \<Rightarrow> dictionary" where
  "index_entry d h e =
     (let d1 = d\<lparr>word2int_m := (word2int_m d)(h := size_m d), size_m := size_m d + 1\<rparr>;
          d2 = (if type e = entry_word then d1\<lparr>nwords_m := nwords_m d1 + 1\<rparr> else d1)
      in if type e = entry_label then d2\<lparr>nlabels_m := nlabels_m d2 + 1\<rparr> else d2)"

fun threshold_loop :: "nat \<Rightarrow> entry list \<Rightarrow> dictionary \<Rightarrow> dictionary option" where
  "threshold_loop cap [] d = Some d"
| "threshold_loop cap (e # es) d = do {
     h \<leftarrow> find cap d (word e);
     threshold_loop cap es (index_entry d h e)
   }"

definition threshold :: "(entry list \<Rightarrow> entry list) \<Rightarrow> nat \<Rightarrow> int \<Rightarrow> int \<Rightarrow> dictionary \<Rightarrow> dictionary option" where
  "threshold srt cap t tlab d =
     (let ws = filter (\<lambda>e. \<not> below_cutoff t tlab e) (srt (words_m d));
          d1 = d\<lparr>words_m := ws, size_m := 0, nwords_m := 0, nlabels_m := 0,
                 word2int_m := (\<lambda>_. - 1)\<rparr>
      in threshold_loop cap ws d1)"

text \<open>
  What the specification says of the store after \<^verbatim>\<open>threshold\<close> and \<^verbatim>\<open>prune\<close>: the
  first \<^verbatim>\<open>nwords_\<close> entries are the words and all later entries are labels; among
  entries of one type the counts never increase; and the sizes, which are counts, add
  up to the number of entries.
\<close>

definition grouped :: "dictionary \<Rightarrow> bool" where
  "grouped d \<longleftrightarrow>
     (\<forall>i<length (words_m d). (int i < nwords_m d) = (type (words_m d ! i) = entry_word))"

definition count_descending :: "dictionary \<Rightarrow> bool" where
  "count_descending d \<longleftrightarrow>
     (\<forall>j<length (words_m d). \<forall>i<j.
        type (words_m d ! i) = type (words_m d ! j) \<longrightarrow>
        count (words_m d ! j) \<le> count (words_m d ! i))"

definition sizes_add_up :: "dictionary \<Rightarrow> bool" where
  "sizes_add_up d \<longleftrightarrow>
     size_m d = nwords_m d + nlabels_m d \<and> size_m d = int (length (words_m d)) \<and>
     0 \<le> nwords_m d \<and> 0 \<le> nlabels_m d"


text \<open>
  The index agrees with the first \<open>n\<close> entries of a store \<open>ws\<close>: the state of the index
  while \<^verbatim>\<open>threshold\<close> rebuilds it.
\<close>

definition index_upto :: "nat \<Rightarrow> entry list \<Rightarrow> nat \<Rightarrow> (nat \<Rightarrow> int) \<Rightarrow> bool" where
  "index_upto cap ws n f \<longleftrightarrow>
     n \<le> length ws \<and>
     (\<forall>h<cap. f h = - 1 \<or> (0 \<le> f h \<and> f h < int n)) \<and>
     (\<forall>i<n. \<exists>k<cap. f (probe cap (word (ws ! i)) k) = int i \<and>
                      (\<forall>j<k. f (probe cap (word (ws ! i)) j) \<noteq> - 1))"

text \<open>The entry that \<^verbatim>\<open>add\<close> appends for a word it has not seen.\<close>

definition new_entry :: "args \<Rightarrow> string \<Rightarrow> entry" where
  "new_entry a w =
     \<lparr>word = w, count = 1,
      type = (if prefix (label a) w then entry_label else entry_word), subwords = []\<rparr>"

text \<open>What \<^verbatim>\<open>add(w)\<close> does to an entry of a store without duplicates.\<close>

definition bump :: "string \<Rightarrow> entry \<Rightarrow> entry" where
  "bump w e = (if word e = w then e\<lparr>count := count e + 1\<rparr> else e)"

text \<open>The entries that \<^verbatim>\<open>threshold\<close> leaves in the store, in their new order.\<close>

definition kept :: "(entry list \<Rightarrow> entry list) \<Rightarrow> int \<Rightarrow> int \<Rightarrow> entry list \<Rightarrow> entry list" where
  "kept srt t tlab ws = filter (\<lambda>e. \<not> below_cutoff t tlab e) (srt ws)"

subsection \<open>Concrete configurations and states\<close>

text \<open>A supervised configuration, and the dictionary after \<^verbatim>\<open>add("a")\<close>.\<close>

definition args0 :: args where
  "args0 = \<lparr>label = ''__label__'', minn = 3, maxn = 3, bucket = 2000000, wordNgrams = 2,
            model = sup, sampling_t = 1 / 10000\<rparr>"

definition dict_a :: dictionary where
  "dict_a = \<lparr>args_m = args0,
     words_m = [\<lparr>word = ''a'', count = 1, type = entry_word, subwords = []\<rparr>],
     word2int_m = (\<lambda>_. - 1)(16002220 := 0), size_m = 1, nwords_m = 0,
     nlabels_m = 0, ntokens_m = 1, pdiscard_m = [], quant_m = False, quantidx_m = []\<rparr>"

subsection \<open>\<^verbatim>\<open>Dictionary::computeNgrams\<close> and \<^verbatim>\<open>initNgrams\<close>\<close>

text \<open>\<^verbatim>\<open>(c & 0xC0) == 0x80\<close>: the byte continues a UTF-8 code point.\<close>

definition is_continuation :: "char \<Rightarrow> bool" where
  "is_continuation c \<longleftrightarrow> (of_char c :: nat) AND 0xC0 = 0x80"

text \<open>
  The loops compare the \<^verbatim>\<open>size_t\<close> counter \<open>n\<close> with the \<^verbatim>\<open>int\<close> bounds
  \<^verbatim>\<open>args_->minn\<close> and \<^verbatim>\<open>args_->maxn\<close>, which C++ converts to \<^verbatim>\<open>size_t\<close> first.
\<close>

definition size_t_of :: "int \<Rightarrow> nat" where
  "size_t_of x = nat (x mod 2 ^ 64)"

text \<open>The inner \<^verbatim>\<open>while\<close>: append the continuation bytes from position \<open>j\<close> on.\<close>

function cont_loop :: "string \<Rightarrow> nat \<Rightarrow> string \<Rightarrow> nat \<times> string" where
  "cont_loop w j ngram =
     (if j < length w \<and> is_continuation (w ! j)
      then cont_loop w (j + 1) (ngram @ [w ! j])
      else (j, ngram))"
  by pat_completeness auto
termination
  by (relation "measure (\<lambda>(w, j, ngram). length w - j)") auto

declare cont_loop.simps [simp del]

lemma cont_loop_mono: "cont_loop w j ngram = (j', ngram') \<Longrightarrow> j \<le> j'"
proof (induction w j ngram rule: cont_loop.induct)
  case (1 w j ngram)
  show ?case
  proof (cases "j < length w \<and> is_continuation (w ! j)")
    case True
    with 1 show ?thesis by (simp add: cont_loop.simps [of w j ngram])
  next
    case False
    with 1 show ?thesis by (simp add: cont_loop.simps [of w j ngram] split: if_splits)
  qed
qed

text \<open>
  The feature id of a character n-gram: \<^verbatim>\<open>int32_t h = hash(ngram) % args_->bucket\<close> in
  unsigned 32-bit arithmetic, read back as \<^verbatim>\<open>int32_t\<close>, plus \<^verbatim>\<open>nwords_\<close>.
\<close>

definition ngram_id :: "args \<Rightarrow> int \<Rightarrow> string \<Rightarrow> int" where
  "ngram_id a nw ngram = nw + sint (hash ngram mod (word_of_int (bucket a) :: 32 word))"

text \<open>
  The loop over \<open>j\<close> and \<open>n\<close> for one start position \<open>i\<close>.  \<open>None\<close>: the division by
  \<^verbatim>\<open>args_->bucket\<close> when that is 0.
\<close>

function ngram_loop ::
  "args \<Rightarrow> int \<Rightarrow> string \<Rightarrow> nat \<Rightarrow> nat \<Rightarrow> nat \<Rightarrow> string \<Rightarrow> int list \<Rightarrow> int list option" where
  "ngram_loop a nw w i j n ngram ngrams =
     (if j < length w \<and> n \<le> size_t_of (maxn a) then
        (case cont_loop w (j + 1) (ngram @ [w ! j]) of
           (j', ngram') \<Rightarrow>
             if size_t_of (minn a) \<le> n \<and> \<not> (n = 1 \<and> (i = 0 \<or> j' = length w)) then
               (if bucket a = 0 then None
                else ngram_loop a nw w i j' (n + 1) ngram' (ngrams @ [ngram_id a nw ngram']))
             else ngram_loop a nw w i j' (n + 1) ngram' ngrams)
      else Some ngrams)"
  by pat_completeness auto
termination
proof (relation "measure (\<lambda>(a, nw, w, i, j, n, ngram, ngrams). length w - j)")
  show "wf (measure (\<lambda>(a :: args, nw :: int, w :: string, i :: nat, j :: nat, n :: nat, ngram :: string, ngrams :: int list). length w - j))"
    by simp
qed (auto dest!: cont_loop_mono [OF sym])

declare ngram_loop.simps [simp del]

function computeNgrams_loop :: "args \<Rightarrow> int \<Rightarrow> string \<Rightarrow> nat \<Rightarrow> int list \<Rightarrow> int list option" where
  "computeNgrams_loop a nw w i ngrams =
     (if i < length w then
        (if is_continuation (w ! i) then computeNgrams_loop a nw w (i + 1) ngrams
         else do {
           ngrams' \<leftarrow> ngram_loop a nw w i i 1 [] ngrams;
           computeNgrams_loop a nw w (i + 1) ngrams'
         })
      else Some ngrams)"
  by pat_completeness auto
termination
  by (relation "measure (\<lambda>(a, nw, w, i, ngrams). length w - i)") auto

declare computeNgrams_loop.simps [simp del]

definition computeNgrams :: "dictionary \<Rightarrow> string \<Rightarrow> int list \<Rightarrow> int list option" where
  "computeNgrams d w ngrams = computeNgrams_loop (args_m d) (nwords_m d) w 0 ngrams"

text \<open>
  \<^verbatim>\<open>initNgrams\<close>, from entry \<open>i\<close> on.  \<open>None\<close>: \<^verbatim>\<open>size_\<close> exceeds the number of
  entries (the read \<^verbatim>\<open>words_[i]\<close> is then out of range), or \<^verbatim>\<open>computeNgrams\<close> fails.
\<close>

function initNgrams_loop :: "dictionary \<Rightarrow> nat \<Rightarrow> dictionary option" where
  "initNgrams_loop d i =
     (if int i < size_m d then
        (if i < length (words_m d) then do {
           sw \<leftarrow> computeNgrams d (BOW @ word (words_m d ! i) @ EOW)
                   (subwords (words_m d ! i) @ [int i]);
           initNgrams_loop (d\<lparr>words_m := (words_m d)[i := (words_m d ! i)\<lparr>subwords := sw\<rparr>]\<rparr>) (i + 1)
         } else None)
      else Some d)"
  by pat_completeness auto
termination
  by (relation "measure (\<lambda>(d, i). nat (size_m d) - i)") auto

declare initNgrams_loop.simps [simp del]

definition initNgrams :: "dictionary \<Rightarrow> dictionary option" where
  "initNgrams d = initNgrams_loop d 0"






subsection \<open>The input stream, \<^verbatim>\<open>Dictionary::readWord\<close> and the tokens of a line\<close>

text \<open>
  A \<^verbatim>\<open>std::istream\<close> over a file: the bytes of the file, the read position and the
  \<^verbatim>\<open>eofbit\<close> (the only state bit the code tests; \<^verbatim>\<open>failbit\<close> is set with it).
\<close>

record istream =
  buf :: string
  pos :: nat
  eofbit :: bool

text \<open>
  \<^verbatim>\<open>in.get()\<close>, whose result \<^verbatim>\<open>readWord\<close> ignores: on a stream in a good state it
  extracts one byte, or sets \<^verbatim>\<open>eofbit\<close> when there is none; otherwise it reads nothing.
\<close>

definition in_get :: "istream \<Rightarrow> istream" where
  "in_get s =
     (if eofbit s then s
      else if pos s < length (buf s) then s\<lparr>pos := pos s + 1\<rparr>
      else s\<lparr>eofbit := True\<rparr>)"

text \<open>The bytes that end a token: space, newline, carriage return, tab, VT, FF and NUL.\<close>

definition is_delimiter :: "char \<Rightarrow> bool" where
  "is_delimiter c \<longleftrightarrow>
     c = CHR '' '' \<or> c = CHR 0x0A \<or> c = CHR 0x0D \<or> c = CHR 0x09 \<or> c = CHR 0x0B \<or>
     c = CHR 0x0C \<or> c = CHR 0x00"

text \<open>
  The loop of \<^verbatim>\<open>readWord\<close>, with the word read so far.  \<^verbatim>\<open>sbumpc()\<close> reads the
  stream buffer directly and leaves the state bits alone.  Its result is stored in the
  \<^verbatim>\<open>char c\<close> before the comparison with \<^verbatim>\<open>EOF\<close>, so the byte \<^verbatim>\<open>0xFF\<close>, which is -1 as a
  signed \<^verbatim>\<open>char\<close>, ends the loop as the end of the stream does (after it has been
  consumed).  \<^verbatim>\<open>sungetc()\<close> steps back over the newline just read.
\<close>

function readWord_loop :: "istream \<Rightarrow> string \<Rightarrow> bool \<times> string \<times> istream" where
  "readWord_loop s w =
     (if pos s < length (buf s) \<and> buf s ! pos s \<noteq> CHR 0xFF then
        (let c = buf s ! pos s; s1 = s\<lparr>pos := pos s + 1\<rparr> in
         if is_delimiter c then
           (if w = [] then
              (if c = CHR 0x0A then (True, w @ EOS, s1) else readWord_loop s1 w)
            else (True, w, if c = CHR 0x0A then s1\<lparr>pos := pos s1 - 1\<rparr> else s1))
         else readWord_loop s1 (w @ [c]))
      else
        (let s1 = (if pos s < length (buf s) then s\<lparr>pos := pos s + 1\<rparr> else s)
         in (w \<noteq> [], w, in_get s1)))"
  by pat_completeness auto
termination
  by (relation "measure (\<lambda>(s, w). length (buf s) - pos s)") auto

declare readWord_loop.simps [simp del]

definition readWord :: "istream \<Rightarrow> bool \<times> string \<times> istream" where
  "readWord s = readWord_loop s []"

text \<open>
  Vocabulary for the statements about \<^verbatim>\<open>readWord\<close>: the bytes \<open>xs\<close> are next in the
  stream; the stream moved on by \<open>n\<close> bytes; a run of delimiters without a newline; the
  bytes of one token.
\<close>

definition ahead :: "istream \<Rightarrow> string \<Rightarrow> bool" where
  "ahead s xs \<longleftrightarrow> pos s \<le> length (buf s) \<and> drop (pos s) (buf s) = xs"

definition advance :: "istream \<Rightarrow> nat \<Rightarrow> istream" where
  "advance s n = s\<lparr>pos := pos s + n\<rparr>"

definition blanks :: "string \<Rightarrow> bool" where
  "blanks ds \<longleftrightarrow> (\<forall>c\<in>set ds. is_delimiter c \<and> c \<noteq> CHR 0x0A)"

definition token_bytes :: "string \<Rightarrow> bool" where
  "token_bytes tok \<longleftrightarrow> tok \<noteq> [] \<and> (\<forall>c\<in>set tok. \<not> is_delimiter c \<and> c \<noteq> CHR 0xFF)"

lemma readWord_loop_progress:
  "readWord_loop s w = (True, w', s') \<Longrightarrow>
   buf s' = buf s \<and> pos s \<le> pos s' \<and> (w = [] \<longrightarrow> pos s < pos s' \<and> pos s < length (buf s))"
proof (induction s w arbitrary: w' s' rule: readWord_loop.induct)
  case (1 s w)
  let ?c = "buf s ! pos s"
  let ?s1 = "s\<lparr>pos := pos s + 1\<rparr>"
  show ?case
  proof (cases "pos s < length (buf s) \<and> ?c \<noteq> CHR 0xFF")
    case False
    with "1.prems" show ?thesis
      by (subst (asm) readWord_loop.simps) (auto simp: Let_def in_get_def split: if_splits)
  next
    case True
    show ?thesis
    proof (cases "is_delimiter ?c")
      case d: True
      show ?thesis
      proof (cases "w = []")
        case e: True
        show ?thesis
        proof (cases "?c = CHR 0x0A")
          case True
          with \<open>pos s < length (buf s) \<and> ?c \<noteq> CHR 0xFF\<close> d e "1.prems" show ?thesis
            by (subst (asm) readWord_loop.simps) (auto simp: Let_def)
        next
          case False
          with True d e "1.prems" have "readWord_loop ?s1 w = (True, w', s')"
            by (subst (asm) readWord_loop.simps) (simp add: Let_def)
          with True d e False have "buf s' = buf ?s1 \<and> pos ?s1 \<le> pos s' \<and>
              (w = [] \<longrightarrow> pos ?s1 < pos s' \<and> pos ?s1 < length (buf ?s1))"
            by (intro "1.IH"(1) [of ?c ?s1]) simp_all
          with True show ?thesis by simp
        qed
      next
        case False
        with True d "1.prems" show ?thesis
          by (subst (asm) readWord_loop.simps) (auto simp: Let_def split: if_splits)
      qed
    next
      case False
      with True "1.prems" have "readWord_loop ?s1 (w @ [?c]) = (True, w', s')"
        by (subst (asm) readWord_loop.simps) (simp add: Let_def)
      with True False have "buf s' = buf ?s1 \<and> pos ?s1 \<le> pos s' \<and>
              (w @ [?c] = [] \<longrightarrow> pos ?s1 < pos s' \<and> pos ?s1 < length (buf ?s1))"
        by (intro "1.IH"(2) [of ?c ?s1]) simp_all
      with True show ?thesis by simp
    qed
  qed
qed

text \<open>
  The loop of the token-reading \<^verbatim>\<open>getLine\<close>; \<open>mls\<close> is \<^verbatim>\<open>MAX_LINE_SIZE\<close>.  It ends
  because every call of \<^verbatim>\<open>readWord\<close> that reports a token moves the stream forward.
\<close>

function getLine_loop :: "nat \<Rightarrow> args \<Rightarrow> istream \<Rightarrow> string list \<Rightarrow> string list \<times> istream" where
  "getLine_loop mls a s tokens =
     (case readWord s of
        (False, token, s') \<Rightarrow> (tokens, s')
      | (True, token, s') \<Rightarrow>
          if token = EOS then (tokens @ [token], s')
          else if length (tokens @ [token]) > mls \<and> model a \<noteq> sup then (tokens @ [token], s')
          else getLine_loop mls a s' (tokens @ [token]))"
  by pat_completeness auto
termination
  by (relation "measure (\<lambda>(mls, a, s, tokens). length (buf s) - pos s)")
     (auto simp: readWord_def dest!: readWord_loop_progress [OF sym])

declare getLine_loop.simps [simp del]

text \<open>
  \<^verbatim>\<open>getLine(in, tokens)\<close>: at the end of the stream it first rewinds (\<^verbatim>\<open>clear\<close>,
  \<^verbatim>\<open>seekg(0)\<close>).  The source returns \<^verbatim>\<open>tokens.size()\<close>, the length of the list here.
\<close>

definition getLine_tokens :: "nat \<Rightarrow> args \<Rightarrow> istream \<Rightarrow> string list \<times> istream" where
  "getLine_tokens mls a s =
     getLine_loop mls a (if eofbit s then s\<lparr>eofbit := False, pos := 0\<rparr> else s) []"

subsection \<open>\<^verbatim>\<open>getType\<close>, \<^verbatim>\<open>discard\<close>, \<^verbatim>\<open>addNgrams\<close> and the id-converting \<^verbatim>\<open>getLine\<close>\<close>

text \<open>\<open>None\<close>: an \<^verbatim>\<open>assert\<close> fails, or the read of the vector is out of range.\<close>

definition getType :: "dictionary \<Rightarrow> int \<Rightarrow> entry_type option" where
  "getType d i =
     (if i < 0 \<or> size_m d \<le> i \<or> int (length (words_m d)) \<le> i then None
      else Some (type (words_m d ! nat i)))"

definition discard :: "dictionary \<Rightarrow> int \<Rightarrow> real \<Rightarrow> bool option" where
  "discard d i rand =
     (if i < 0 \<or> nwords_m d \<le> i then None
      else if model (args_m d) = sup then Some False
      else if int (length (pdiscard_m d)) \<le> i then None
      else Some (rand > pdiscard_m d ! nat i))"

text \<open>
  The random generator, as the sequence of the values that \<^verbatim>\<open>uniform(rng)\<close> will
  return (already converted to \<^verbatim>\<open>real\<close>, the float type of the program).
\<close>

type_synonym rng = "nat \<Rightarrow> real"

definition uniform :: "rng \<Rightarrow> real \<times> rng" where
  "uniform g = (g 0, \<lambda>k. g (Suc k))"

text \<open>The value that a 64-bit integer has after conversion to \<^verbatim>\<open>int32_t\<close>.\<close>

definition to_int32 :: "int \<Rightarrow> int" where
  "to_int32 x = sint (word_of_int x :: 32 word)"

text \<open>
  The result of the loop over the tokens: \<^verbatim>\<open>ntokens\<close>, \<^verbatim>\<open>words\<close>, \<^verbatim>\<open>word_hashes\<close>
  (each hash stored as \<^verbatim>\<open>int32_t\<close>), \<^verbatim>\<open>labels\<close>, and the generator.
\<close>

type_synonym line = "int \<times> int list \<times> int list \<times> int list \<times> rng"

fun getLine_ids_loop :: "nat \<Rightarrow> dictionary \<Rightarrow> string list \<Rightarrow> line \<Rightarrow> line option" where
  "getLine_ids_loop cap d [] st = Some st"
| "getLine_ids_loop cap d (tok # toks) (ntokens, words, word_hashes, labels, g) = do {
     h \<leftarrow> find cap d tok;
     let wid = word2int_m d h;
     if wid < 0 then
       getLine_ids_loop cap d toks (ntokens, words, word_hashes @ [sint (hash tok)], labels, g)
     else do {
       ty \<leftarrow> getType d wid;
       if ty = entry_word then do {
         dis \<leftarrow> discard d wid (fst (uniform g));
         if \<not> dis then
           getLine_ids_loop cap d toks
             (ntokens + 1, words @ [wid], word_hashes @ [sint (hash tok)], labels, snd (uniform g))
         else
           getLine_ids_loop cap d toks (ntokens + 1, words, word_hashes, labels, snd (uniform g))
       } else
         getLine_ids_loop cap d toks (ntokens + 1, words, word_hashes, labels @ [wid - nwords_m d], g)
     }
   }"

text \<open>\<^verbatim>\<open>getLine(in, words, word_hashes, labels, rng)\<close>.\<close>

definition getLine_ids :: "nat \<Rightarrow> nat \<Rightarrow> dictionary \<Rightarrow> istream \<Rightarrow> rng \<Rightarrow> (line \<times> istream) option" where
  "getLine_ids cap mls d s g =
     (case getLine_tokens mls (args_m d) s of
        (tokens, s') \<Rightarrow> do {
          st \<leftarrow> getLine_ids_loop cap d tokens (0, [], [], [], g);
          Some (st, s')
        })"

text \<open>
  \<^verbatim>\<open>addNgrams\<close>.  The accumulator \<open>h\<close> is the \<^verbatim>\<open>uint64_t\<close>; a hash, an \<^verbatim>\<open>int32_t\<close>, is
  sign-extended when it enters the arithmetic, and so is \<^verbatim>\<open>args_->bucket\<close>.  The
  counters \<open>i\<close>, \<open>j\<close> and the sum \<^verbatim>\<open>i + n\<close> are taken without overflow.  \<open>None\<close>: the
  division by a bucket count of 0.
\<close>

function addNgrams_inner ::
  "dictionary \<Rightarrow> int list \<Rightarrow> nat \<Rightarrow> int \<Rightarrow> nat \<Rightarrow> 64 word \<Rightarrow> int list \<Rightarrow> int list option" where
  "addNgrams_inner d hashes i n j h line =
     (if j < length hashes \<and> int j < int i + n then
        (if bucket (args_m d) = 0 then None
         else
           (let h' = h * 116049371 + word_of_int (hashes ! j);
                id = sint (h' mod (word_of_int (bucket (args_m d)) :: 64 word))
            in if quantidx_m d \<noteq> [] then
                 (case map_of (quantidx_m d) (to_int32 id) of
                    Some v \<Rightarrow>
                      addNgrams_inner d hashes i n (j + 1) h' (line @ [to_int32 (nwords_m d + v)])
                  | None \<Rightarrow> addNgrams_inner d hashes i n (j + 1) h' line)
               else addNgrams_inner d hashes i n (j + 1) h' (line @ [to_int32 (nwords_m d + id)])))
      else Some line)"
  by pat_completeness auto
termination
  by (relation "measure (\<lambda>(d, hashes, i, n, j, h, line). length hashes - j)") auto

declare addNgrams_inner.simps [simp del]

function addNgrams_outer :: "dictionary \<Rightarrow> int list \<Rightarrow> int \<Rightarrow> nat \<Rightarrow> int list \<Rightarrow> int list option" where
  "addNgrams_outer d hashes n i line =
     (if i < length hashes then do {
        line' \<leftarrow> addNgrams_inner d hashes i n (i + 1) (word_of_int (hashes ! i)) line;
        addNgrams_outer d hashes n (i + 1) line'
      } else Some line)"
  by pat_completeness auto
termination
  by (relation "measure (\<lambda>(d, hashes, n, i, line). length hashes - i)") auto

declare addNgrams_outer.simps [simp del]

definition addNgrams :: "dictionary \<Rightarrow> int list \<Rightarrow> int list \<Rightarrow> int \<Rightarrow> int list option" where
  "addNgrams d line hashes n = addNgrams_outer d hashes n 0 line"

text \<open>
  \<^verbatim>\<open>getLine(in, words, labels, rng)\<close>: the result is \<^verbatim>\<open>ntokens\<close>, \<^verbatim>\<open>words\<close>,
  \<^verbatim>\<open>labels\<close>, the stream and the generator.
\<close>

definition getLine ::
  "nat \<Rightarrow> nat \<Rightarrow> dictionary \<Rightarrow> istream \<Rightarrow> rng \<Rightarrow> (int \<times> int list \<times> int list \<times> istream \<times> rng) option" where
  "getLine cap mls d s g = do {
     ((ntokens, words, word_hashes, labels, g'), s') \<leftarrow> getLine_ids cap mls d s g;
     if model (args_m d) = sup then
       (if quant_m d then do {
          words' \<leftarrow> addNgrams d words word_hashes (wordNgrams (args_m d));
          Some (ntokens, words', labels, s', g')
        } else do {
          ngrams \<leftarrow> addNgrams d [] words (wordNgrams (args_m d));
          Some (ntokens, words @ ngrams, labels, s', g')
        })
     else Some (ntokens, words, labels, s', g')
   }"

text \<open>
  The specification's reading of the conversion of one token.  \<open>lookup\<close> is the position
  of the entry of a word in the store.  A token without an entry adds its hash to the
  hash list and nothing else; a word is counted, takes one value from the generator
  and, unless subsampling discards it, adds its id to the word ids and its hash to the
  hash list; a label is counted and adds its position minus \<^verbatim>\<open>nwords_\<close> to the labels.
\<close>

definition lookup :: "dictionary \<Rightarrow> string \<Rightarrow> nat option" where
  "lookup d w = map_of (zip (map word (words_m d)) [0..<length (words_m d)]) w"

definition subsampled :: "dictionary \<Rightarrow> nat \<Rightarrow> real \<Rightarrow> bool" where
  "subsampled d i rand \<longleftrightarrow> model (args_m d) \<noteq> sup \<and> rand > pdiscard_m d ! i"

fun convert_token :: "dictionary \<Rightarrow> string \<Rightarrow> line \<Rightarrow> line" where
  "convert_token d tok (ntokens, words, word_hashes, labels, g) =
     (case lookup d tok of
        None \<Rightarrow> (ntokens, words, word_hashes @ [sint (hash tok)], labels, g)
      | Some i \<Rightarrow>
          (case type (words_m d ! i) of
             entry_word \<Rightarrow>
               if subsampled d i (fst (uniform g))
               then (ntokens + 1, words, word_hashes, labels, snd (uniform g))
               else (ntokens + 1, words @ [int i], word_hashes @ [sint (hash tok)], labels,
                     snd (uniform g))
           | entry_label \<Rightarrow>
               (ntokens + 1, words, word_hashes, labels @ [int i - nwords_m d], g)))"

definition in_vocabulary :: "dictionary \<Rightarrow> string \<Rightarrow> bool" where
  "in_vocabulary d w \<longleftrightarrow> w \<in> word ` set (words_m d)"

text \<open>
  The dictionary after \<^verbatim>\<open>add\<close> on the tokens of the line \<^verbatim>\<open>__label__x a b\<close>, and after
  the final \<^verbatim>\<open>threshold(1, 1)\<close>, for a table of 30000000 slots.
\<close>

definition dict_raw :: dictionary where
  "dict_raw = \<lparr>args_m = args0,
     words_m = [\<lparr>word = ''__label__x'', count = 1, type = entry_label, subwords = []\<rparr>,
                \<lparr>word = ''a'', count = 1, type = entry_word, subwords = []\<rparr>,
                \<lparr>word = ''b'', count = 1, type = entry_word, subwords = []\<rparr>,
                \<lparr>word = ''</s>'', count = 1, type = entry_word, subwords = []\<rparr>],
     word2int_m = (\<lambda>_. - 1)(5146739 := 0, 16002220 := 1, 6335077 := 2, 17362777 := 3),
     size_m = 4, nwords_m = 0, nlabels_m = 0, ntokens_m = 4, pdiscard_m = [],
     quant_m = False, quantidx_m = []\<rparr>"

definition dict0 :: dictionary where
  "dict0 = \<lparr>args_m = args0,
     words_m = [\<lparr>word = ''a'', count = 1, type = entry_word, subwords = []\<rparr>,
                \<lparr>word = ''b'', count = 1, type = entry_word, subwords = []\<rparr>,
                \<lparr>word = ''</s>'', count = 1, type = entry_word, subwords = []\<rparr>,
                \<lparr>word = ''__label__x'', count = 1, type = entry_label, subwords = []\<rparr>],
     word2int_m = (\<lambda>_. - 1)(16002220 := 0, 6335077 := 1, 17362777 := 2, 5146739 := 3),
     size_m = 4, nwords_m = 3, nlabels_m = 1, ntokens_m = 4, pdiscard_m = [],
     quant_m = False, quantidx_m = []\<rparr>"

text \<open>The same store in a skip-gram configuration, with a table of discard thresholds.\<close>

definition dict_sg :: dictionary where
  "dict_sg = dict0\<lparr>args_m := args0\<lparr>model := sg\<rparr>, pdiscard_m := [1 / 2, 2, 2]\<rparr>"

text \<open>The thresholded dictionary with a quantization map of one pair.\<close>

definition dict_q :: dictionary where
  "dict_q = dict0\<lparr>quant_m := True, quantidx_m := [(152201, 0)]\<rparr>"

text \<open>The stream over the file \<^verbatim>\<open>a b\<close> of one line, before and after the line is read.\<close>

definition line_ab :: istream where
  "line_ab = \<lparr>buf = ''a b'' @ [CHR 0x0A], pos = 0, eofbit = False\<rparr>"

definition line_ab_read :: istream where
  "line_ab_read = \<lparr>buf = ''a b'' @ [CHR 0x0A], pos = 4, eofbit = False\<rparr>"

subsection \<open>\<^verbatim>\<open>Dictionary::convertNgrams\<close> and \<^verbatim>\<open>prune\<close>\<close>

lemma readWord_loop_moves:
  "readWord_loop s w = (r, w', s') \<Longrightarrow>
   buf s' = buf s \<and> pos s \<le> pos s' \<and> (w = [] \<and> pos s < length (buf s) \<longrightarrow> pos s < pos s')"
proof (induction s w arbitrary: r w' s' rule: readWord_loop.induct)
  case (1 s w)
  let ?c = "buf s ! pos s"
  let ?s1 = "s\<lparr>pos := pos s + 1\<rparr>"
  show ?case
  proof (cases "pos s < length (buf s) \<and> ?c \<noteq> CHR 0xFF")
    case False
    with "1.prems" show ?thesis
      by (subst (asm) readWord_loop.simps) (auto simp: Let_def in_get_def split: if_splits)
  next
    case True
    show ?thesis
    proof (cases "is_delimiter ?c")
      case d: True
      show ?thesis
      proof (cases "w = []")
        case e: True
        show ?thesis
        proof (cases "?c = CHR 0x0A")
          case True
          with \<open>pos s < length (buf s) \<and> ?c \<noteq> CHR 0xFF\<close> d e "1.prems" show ?thesis
            by (subst (asm) readWord_loop.simps) (auto simp: Let_def)
        next
          case False
          with True d e "1.prems" have "readWord_loop ?s1 w = (r, w', s')"
            by (subst (asm) readWord_loop.simps) (simp add: Let_def)
          with True d e False have "buf s' = buf ?s1 \<and> pos ?s1 \<le> pos s' \<and>
              (w = [] \<and> pos ?s1 < length (buf ?s1) \<longrightarrow> pos ?s1 < pos s')"
            by (intro "1.IH"(1) [of ?c ?s1]) simp_all
          with True show ?thesis by simp
        qed
      next
        case False
        with True d "1.prems" show ?thesis
          by (subst (asm) readWord_loop.simps) (auto simp: Let_def split: if_splits)
      qed
    next
      case False
      with True "1.prems" have "readWord_loop ?s1 (w @ [?c]) = (r, w', s')"
        by (subst (asm) readWord_loop.simps) (simp add: Let_def)
      with True False have "buf s' = buf ?s1 \<and> pos ?s1 \<le> pos s' \<and>
              (w @ [?c] = [] \<and> pos ?s1 < length (buf ?s1) \<longrightarrow> pos ?s1 < pos s')"
        by (intro "1.IH"(2) [of ?c ?s1]) simp_all
      with True show ?thesis by simp
    qed
  qed
qed

lemma getLine_loop_moves:
  "getLine_loop mls a s tokens = (tokens', s') \<Longrightarrow>
   buf s' = buf s \<and> pos s \<le> pos s' \<and> (pos s < length (buf s) \<longrightarrow> pos s < pos s')"
proof (induction mls a s tokens arbitrary: tokens' s' rule: getLine_loop.induct)
  case (1 mls a s tokens)
  obtain r tok s1 where rw: "readWord s = (r, tok, s1)" by (cases "readWord s") auto
  then have "readWord_loop s [] = (r, tok, s1)" by (simp add: readWord_def)
  from readWord_loop_moves [OF this]
  have m: "buf s1 = buf s" "pos s \<le> pos s1" "pos s < length (buf s) \<longrightarrow> pos s < pos s1"
    by simp_all
  show ?case
  proof (cases "r \<and> tok \<noteq> EOS \<and> \<not> (length (tokens @ [tok]) > mls \<and> model a \<noteq> sup)")
    case False
    with "1.prems" rw have "s' = s1"
      by (subst (asm) getLine_loop.simps) (auto split: if_splits bool.splits)
    with m show ?thesis by simp
  next
    case True
    with "1.prems" rw have "getLine_loop mls a s1 (tokens @ [tok]) = (tokens', s')"
      by (subst (asm) getLine_loop.simps) (auto split: if_splits)
    with True rw have "buf s' = buf s1 \<and> pos s1 \<le> pos s' \<and>
        (pos s1 < length (buf s1) \<longrightarrow> pos s1 < pos s')"
      by (intro "1.IH" [where s' = s' and tokens' = tokens']) auto
    with m show ?thesis by auto
  qed
qed

lemma getLine_ids_moves:
  assumes "getLine_ids cap mls d s g = Some (st, s')" and "\<not> eofbit s"
    and "\<not> length (buf s) \<le> pos s"
  shows "length (buf s') - pos s' < length (buf s) - pos s"
proof -
  obtain toks s1 where t: "getLine_tokens mls (args_m d) s = (toks, s1)"
    by (cases "getLine_tokens mls (args_m d) s")
  with assms(1) have "s' = s1" by (auto simp: getLine_ids_def split: bind_splits)
  moreover from t assms(2) have "getLine_loop mls (args_m d) s [] = (toks, s1)"
    by (simp add: getLine_tokens_def)
  from getLine_loop_moves [OF this] assms(3)
  have "buf s1 = buf s" "pos s < pos s1" by simp_all
  ultimately show ?thesis using assms(3) by simp
qed

text \<open>
  One count of \<^verbatim>\<open>convertMap[oh][nh]++\<close> in an inner map, kept as the list of its pairs,
  and the counts of one line: for every position whose old id is one of the selected
  ids (the keys of \<^verbatim>\<open>convertMap\<close>).
\<close>

fun count_up :: "(int \<times> int) list \<Rightarrow> int \<Rightarrow> (int \<times> int) list" where
  "count_up [] k = [(k, 1)]"
| "count_up ((k', v) # m) k = (if k' = k then (k', v + 1) # m else (k', v) # count_up m k)"

fun tally :: "int list \<Rightarrow> int list \<Rightarrow> int list \<Rightarrow> (int \<Rightarrow> (int \<times> int) list) \<Rightarrow> int \<Rightarrow> (int \<times> int) list" where
  "tally keys [] news cm = cm"
| "tally keys (oh # olds) [] cm = cm"
| "tally keys (oh # olds) (nh # news) cm =
     (if oh \<in> set keys then tally keys olds news (cm(oh := count_up (cm oh) nh))
      else tally keys olds news cm)"

text \<open>
  The replay of the corpus, while \<^verbatim>\<open>in.peek() != EOF\<close>.  \<open>None\<close>: a line cannot be
  converted, \<^verbatim>\<open>addNgrams\<close> fails, or the \<^verbatim>\<open>assert\<close> on the two sizes fails.
\<close>

function replay ::
  "nat \<Rightarrow> nat \<Rightarrow> dictionary \<Rightarrow> int list \<Rightarrow> istream \<Rightarrow> rng \<Rightarrow> (int \<Rightarrow> (int \<times> int) list) \<Rightarrow>
     (int \<Rightarrow> (int \<times> int) list) option" where
  "replay cap mls d keys s g cm =
     (if eofbit s \<or> length (buf s) \<le> pos s then Some cm
      else
        (case getLine_ids cap mls d s g of
           None \<Rightarrow> None
         | Some ((ntokens, words, word_hashes, labels, g'), s') \<Rightarrow>
             if words = [] then replay cap mls d keys s' g' cm
             else
               (case addNgrams d [] words (wordNgrams (args_m d)) of
                  None \<Rightarrow> None
                | Some oldhashes \<Rightarrow>
                    (case addNgrams d [] word_hashes (wordNgrams (args_m d)) of
                       None \<Rightarrow> None
                     | Some newhashes \<Rightarrow>
                         if length newhashes \<noteq> length oldhashes then None
                         else replay cap mls d keys s' g' (tally keys oldhashes newhashes cm)))))"
  by pat_completeness auto
termination
  by (relation "measure (\<lambda>(cap, mls, d, keys, s, g, cm). length (buf s) - pos s)")
     (auto intro: getLine_ids_moves)

declare replay.simps [simp del]

text \<open>
  The choice of the most frequent new id of one selected id: the first pair, in the
  order in which the inner map is iterated, whose count exceeds the best so far.
  \<open>newhash\<close> has no value (\<open>None\<close>) until a pair has been taken.
\<close>

fun pick :: "(int \<times> int) list \<Rightarrow> int option \<Rightarrow> int \<Rightarrow> int option" where
  "pick [] newhash cnt = newhash"
| "pick ((k, v) # m) newhash cnt = (if cnt < v then pick m (Some k) v else pick m newhash cnt)"

text \<open>
  The loop that fills \<^verbatim>\<open>quantidx_\<close>.  \<open>iter\<close> gives the order in which the library
  iterates an \<^verbatim>\<open>unordered_map\<close> with the given pairs.  \<open>None\<close>: a selected id was never
  counted, so that \<^verbatim>\<open>newhash\<close> is read without a value.
\<close>

fun fill_quantidx ::
  "((int \<times> int) list \<Rightarrow> (int \<times> int) list) \<Rightarrow> (int \<Rightarrow> (int \<times> int) list) \<Rightarrow> int \<Rightarrow> int list \<Rightarrow>
     (int \<times> int) list \<Rightarrow> int \<Rightarrow> int list \<Rightarrow> ((int \<times> int) list \<times> int list) option" where
  "fill_quantidx iter cm nw [] q sz remaining = Some (q, remaining)"
| "fill_quantidx iter cm nw (k # ks) q sz remaining =
     (case pick (iter (cm k)) None (- 1) of
        None \<Rightarrow> None
      | Some newhash \<Rightarrow>
          if map_of q (newhash - nw) = None
          then fill_quantidx iter cm nw ks (q @ [(newhash - nw, sz)]) (sz + 1) (remaining @ [k])
          else fill_quantidx iter cm nw ks q sz remaining)"

text \<open>
  \<^verbatim>\<open>convertNgrams\<close>.  \<open>corpus\<close> is the content of the file \<^verbatim>\<open>args_->input\<close>, or \<open>None\<close>
  when it cannot be opened (the program then exits); \<open>g0\<close> is the default-seeded
  generator.  The result is the dictionary with its new \<^verbatim>\<open>quantidx_\<close> and the new value
  of \<^verbatim>\<open>ngramidx\<close>.
\<close>

definition convertNgrams ::
  "((int \<times> int) list \<Rightarrow> (int \<times> int) list) \<Rightarrow> nat \<Rightarrow> nat \<Rightarrow> string option \<Rightarrow> rng \<Rightarrow>
     dictionary \<Rightarrow> int list \<Rightarrow> (dictionary \<times> int list) option" where
  "convertNgrams iter cap mls corpus g0 d ngramidx =
     (case corpus of
        None \<Rightarrow> None
      | Some bytes \<Rightarrow> do {
          cm \<leftarrow> replay cap mls d ngramidx \<lparr>buf = bytes, pos = 0, eofbit = False\<rparr> g0 (\<lambda>_. []);
          (q, remaining) \<leftarrow> fill_quantidx iter cm (nwords_m d) ngramidx [] 0 [];
          Some (d\<lparr>quantidx_m := q\<rparr>, remaining)
        })"

text \<open>
  The loop of \<^verbatim>\<open>prune\<close> that moves the surviving entries to the front and indexes
  them; \<open>sel\<close> is the sorted vector \<^verbatim>\<open>words\<close> of the selected word ids.  \<open>None\<close>: the
  \<^verbatim>\<open>assert\<close> of \<^verbatim>\<open>getType\<close> fails, or \<^verbatim>\<open>find\<close> does not return.
\<close>

function prune_loop :: "nat \<Rightarrow> dictionary \<Rightarrow> int list \<Rightarrow> nat \<Rightarrow> nat \<Rightarrow> (dictionary \<times> nat) option" where
  "prune_loop cap d sel i j =
     (if i < length (words_m d) then
        (case getType d (int i) of
           None \<Rightarrow> None
         | Some ty \<Rightarrow>
             if ty = entry_label \<or> (j < length sel \<and> sel ! j = int i) then
               (let d1 = d\<lparr>words_m := (words_m d)[j := words_m d ! i]\<rparr> in
                case find cap d1 (word (words_m d1 ! j)) of
                  None \<Rightarrow> None
                | Some h \<Rightarrow>
                    prune_loop cap (d1\<lparr>word2int_m := (word2int_m d1)(h := int j)\<rparr>) sel (i + 1) (j + 1))
             else prune_loop cap d sel (i + 1) j)
      else Some (d, j))"
  by pat_completeness auto
termination
  by (relation "measure (\<lambda>(cap, d, sel, i, j). length (words_m d) - i)") auto

declare prune_loop.simps [simp del]

text \<open>
  \<^verbatim>\<open>prune\<close>, in its three steps.  \<open>prune_select\<close> is the conversion of the selected
  n-gram ids, when there are any, and the new value of \<^verbatim>\<open>idx\<close>.  \<open>prune_entries\<close> is
  the rewriting of the store and of the index, with the new \<^verbatim>\<open>nwords_\<close> and \<^verbatim>\<open>size_\<close>
  and the final \<^verbatim>\<open>erase\<close>; it is \<open>None\<close> also when \<^verbatim>\<open>size_\<close> ends up beyond the
  entries, where the \<^verbatim>\<open>erase\<close> is undefined.
\<close>

definition prune_select ::
  "((int \<times> int) list \<Rightarrow> (int \<times> int) list) \<Rightarrow> nat \<Rightarrow> nat \<Rightarrow> string option \<Rightarrow> rng \<Rightarrow>
     dictionary \<Rightarrow> int list \<Rightarrow> int list \<Rightarrow> (dictionary \<times> int list) option" where
  "prune_select iter cap mls corpus g0 d sel ngrams =
     (if ngrams \<noteq> [] then do {
        (dq, remaining) \<leftarrow> convertNgrams iter cap mls corpus g0 d ngrams;
        Some (dq, sel @ remaining)
      } else Some (d, sel))"

definition prune_entries :: "nat \<Rightarrow> dictionary \<Rightarrow> int list \<Rightarrow> dictionary option" where
  "prune_entries cap d sel = do {
     (d2, j) \<leftarrow> prune_loop cap (d\<lparr>word2int_m := (\<lambda>_. - 1)\<rparr>) sel 0 0;
     let d3 = d2\<lparr>nwords_m := int (length sel)\<rparr>;
     let d4 = d3\<lparr>size_m := nwords_m d3 + nlabels_m d3\<rparr>;
     if size_m d4 < 0 \<or> int (length (words_m d4)) < size_m d4 then None
     else Some (d4\<lparr>words_m := take (nat (size_m d4)) (words_m d4)\<rparr>)
   }"

definition prune ::
  "((int \<times> int) list \<Rightarrow> (int \<times> int) list) \<Rightarrow> nat \<Rightarrow> nat \<Rightarrow> string option \<Rightarrow> rng \<Rightarrow>
     dictionary \<Rightarrow> int list \<Rightarrow> (dictionary \<times> int list) option" where
  "prune iter cap mls corpus g0 d idx =
     (let sel = sort (filter (\<lambda>i. i < nwords_m d) idx);
          ngrams = filter (\<lambda>i. \<not> i < nwords_m d) idx
      in do {
        (d1, idx1) \<leftarrow> prune_select iter cap mls corpus g0 d sel ngrams;
        d2 \<leftarrow> prune_entries cap d1 sel;
        Some (d2, idx1)
      })"

text \<open>
  The entries that \<^verbatim>\<open>prune\<close> keeps: every label, and every word whose position is one
  of the selected ids.
\<close>

definition survivors :: "entry list \<Rightarrow> int list \<Rightarrow> nat set" where
  "survivors ws sel = {i. type (ws ! i) = entry_label \<or> int i \<in> set sel}"

text \<open>
  The positions below \<open>i\<close> have been matched against the first \<open>j\<close> of the sorted
  selected ids.
\<close>

definition matched :: "int list \<Rightarrow> nat \<Rightarrow> nat \<Rightarrow> bool" where
  "matched sel i j \<longleftrightarrow>
     j \<le> length sel \<and> (\<forall>k<j. sel ! k < int i) \<and> (\<forall>k<length sel. j \<le> k \<longrightarrow> int i \<le> sel ! k)"

text \<open>
  The thresholded dictionary \<open>dict0\<close> after \<^verbatim>\<open>prune\<close> with the selected ids 2 and 0:
  the words a and \<^verbatim>\<open></s>\<close> and the label are left.
\<close>

definition dict_pruned :: dictionary where
  "dict_pruned = \<lparr>args_m = args0,
     words_m = [\<lparr>word = ''a'', count = 1, type = entry_word, subwords = []\<rparr>,
                \<lparr>word = ''</s>'', count = 1, type = entry_word, subwords = []\<rparr>,
                \<lparr>word = ''__label__x'', count = 1, type = entry_label, subwords = []\<rparr>],
     word2int_m = (\<lambda>_. - 1)(16002220 := 0, 17362777 := 1, 5146739 := 2),
     size_m = 3, nwords_m = 2, nlabels_m = 1, ntokens_m = 4, pdiscard_m = [],
     quant_m = False, quantidx_m = []\<rparr>"

text \<open>
  The thresholded dictionary \<open>dict0\<close> after a first \<^verbatim>\<open>prune\<close> that selects its three words
  and the n-gram id 4, with the file \<^verbatim>\<open>a b\<close> of one line as the corpus.
\<close>

definition dict_once :: dictionary where
  "dict_once = dict0\<lparr>quantidx_m := [(152201, 0)]\<rparr>"

text \<open>The content of that file.\<close>

definition corpus_ab :: string where
  "corpus_ab = ''a b'' @ [CHR 0x0A]"

text \<open>
  The thresholded dictionary \<open>dict0\<close> after \<^verbatim>\<open>prune\<close> with the selected id 0 given twice.
\<close>

definition dict_dup :: dictionary where
  "dict_dup = \<lparr>args_m = args0,
     words_m = [\<lparr>word = ''a'', count = 1, type = entry_word, subwords = []\<rparr>,
                \<lparr>word = ''__label__x'', count = 1, type = entry_label, subwords = []\<rparr>,
                \<lparr>word = ''</s>'', count = 1, type = entry_word, subwords = []\<rparr>],
     word2int_m = (\<lambda>_. - 1)(16002220 := 0, 5146739 := 1),
     size_m = 3, nwords_m = 2, nlabels_m = 1, ntokens_m = 4, pdiscard_m = [],
     quant_m = False, quantidx_m = []\<rparr>"

text \<open>The content of a file whose one line has the token zz, which is not in the vocabulary.\<close>

definition corpus_azzb :: string where
  "corpus_azzb = ''a zz b'' @ [CHR 0x0A]"

subsection \<open>\<^verbatim>\<open>Dictionary::initTableDiscard\<close>\<close>

text \<open>
  The table of the discard thresholds, with the floating-point type \<^verbatim>\<open>real\<close> of the
  program idealised as the real numbers.  \<open>None\<close>: \<^verbatim>\<open>size_\<close> is negative (the conversion
  to \<^verbatim>\<open>size_t\<close> then asks \<^verbatim>\<open>resize\<close> for more than a vector can hold), or it exceeds the
  number of entries (the read \<^verbatim>\<open>words_[i]\<close> is then out of range).
\<close>

definition initTableDiscard :: "dictionary \<Rightarrow> dictionary option" where
  "initTableDiscard d =
     (if size_m d < 0 \<or> int (length (words_m d)) < size_m d then None
      else Some (d\<lparr>pdiscard_m :=
        map (\<lambda>e. let f = real_of_int (count e) / real_of_int (ntokens_m d)
                 in sqrt (sampling_t (args_m d) / f) + sampling_t (args_m d) / f)
            (take (nat (size_m d)) (words_m d))\<rparr>))"

subsection \<open>\<^verbatim>\<open>Dictionary::save\<close> and \<^verbatim>\<open>load\<close>\<close>

text \<open>
  \<^verbatim>\<open>out.write((char*) &x, n)\<close> writes the \<open>n\<close> bytes of the object \<open>x\<close>, and
  \<^verbatim>\<open>in.read((char*) &x, n)\<close> reads them back: the representation of the machine, which is
  little-endian two's complement on the x86 targets (as for \<^verbatim>\<open>char\<close> above).
  \<open>le_bytes n v\<close> is the representation of the unsigned value \<open>v\<close> in \<open>n\<close> bytes, and
  \<open>le_nat\<close> the unsigned value of a representation.
\<close>

fun le_bytes :: "nat \<Rightarrow> nat \<Rightarrow> string" where
  "le_bytes 0 v = []"
| "le_bytes (Suc n) v = char_of (v mod 256) # le_bytes n (v div 256)"

fun le_nat :: "string \<Rightarrow> nat" where
  "le_nat [] = 0"
| "le_nat (c # cs) = of_char c + 256 * le_nat cs"

definition to_int64 :: "int \<Rightarrow> int" where
  "to_int64 x = sint (word_of_int x :: 64 word)"

definition write_int32 :: "int \<Rightarrow> string" where
  "write_int32 v = le_bytes 4 (nat (v mod 2 ^ 32))"

definition write_int64 :: "int \<Rightarrow> string" where
  "write_int64 v = le_bytes 8 (nat (v mod 2 ^ 64))"

definition read_int32 :: "string \<Rightarrow> int" where
  "read_int32 bs = to_int32 (int (le_nat bs))"

definition read_int64 :: "string \<Rightarrow> int" where
  "read_int64 bs = to_int64 (int (le_nat bs))"

text \<open>
  Modelled from the spec: \<^verbatim>\<open>sizeof(entry_type)\<close> is fixed by the declaration of the
  enumeration in \<^verbatim>\<open>dictionary.h\<close>, which is not at hand; the specification has a "type
  tag (fixed width)".  The width is the parameter \<open>tw\<close>, a number of bytes, and the tag
  is the number \<open>type_rank\<close> of the enumerator.  A tag read back that is the number of no
  enumerator has no value in \<open>entry_type\<close>: \<open>None\<close>.
\<close>

definition write_type :: "nat \<Rightarrow> entry_type \<Rightarrow> string" where
  "write_type tw ty = le_bytes tw (type_rank ty)"

definition read_type :: "string \<Rightarrow> entry_type option" where
  "read_type bs =
     (if le_nat bs = type_rank entry_word then Some entry_word
      else if le_nat bs = type_rank entry_label then Some entry_label
      else None)"

text \<open>
  \<^verbatim>\<open>save\<close>.  The output stream is the list of the bytes written.  \<open>save_loop\<close> is the loop
  over the entries; \<open>None\<close>: \<^verbatim>\<open>size_\<close> exceeds the number of entries (the read
  \<^verbatim>\<open>words_[i]\<close> is then out of range).  \<open>save_pairs\<close> is the loop over the map of the
  quantization, and \<open>iter\<close> the order in which the library iterates it.  The size of the
  map is written as a \<^verbatim>\<open>size_t\<close>, of 8 bytes.
\<close>

function save_loop :: "nat \<Rightarrow> dictionary \<Rightarrow> nat \<Rightarrow> string \<Rightarrow> string option" where
  "save_loop tw d i out =
     (if int i < size_m d then
        (if i < length (words_m d) then
           (let e = words_m d ! i in
            save_loop tw d (i + 1)
              (out @ word e @ [CHR 0x00] @ write_int64 (count e) @ write_type tw (type e)))
         else None)
      else Some out)"
  by pat_completeness auto
termination
  by (relation "measure (\<lambda>(tw, d, i, out). nat (size_m d) - i)") auto

declare save_loop.simps [simp del]

fun save_pairs :: "(int \<times> int) list \<Rightarrow> string" where
  "save_pairs [] = []"
| "save_pairs ((k, v) # q) = write_int32 k @ write_int32 v @ save_pairs q"

definition save :: "nat \<Rightarrow> ((int \<times> int) list \<Rightarrow> (int \<times> int) list) \<Rightarrow> dictionary \<Rightarrow> string option" where
  "save tw iter d = do {
     out \<leftarrow> save_loop tw d 0
       (write_int32 (size_m d) @ write_int32 (nwords_m d) @ write_int32 (nlabels_m d) @
        write_int64 (ntokens_m d));
     Some (if quant_m d
           then out @ le_bytes 8 (length (quantidx_m d)) @ save_pairs (iter (quantidx_m d))
           else out)
   }"

text \<open>
  \<^verbatim>\<open>load\<close>.  The input stream is the list of the bytes not yet read.  \<open>read n\<close> is
  \<^verbatim>\<open>in.read\<close> of \<open>n\<close> bytes; \<open>None\<close>: the stream ends before them, and the variable read
  keeps bytes that the stream did not give.  \<open>read_cstr\<close> is the loop
  \<^verbatim>\<open>while ((c = in.get()) != 0)\<close>; \<open>None\<close>: the stream ends before a zero byte, after
  which \<^verbatim>\<open>in.get()\<close> gives \<^verbatim>\<open>EOF\<close> for ever and the loop does not end.
\<close>

definition read :: "nat \<Rightarrow> string \<Rightarrow> (string \<times> string) option" where
  "read n bs = (if length bs < n then None else Some (take n bs, drop n bs))"

fun read_cstr :: "string \<Rightarrow> (string \<times> string) option" where
  "read_cstr [] = None"
| "read_cstr (c # cs) =
     (if c = CHR 0x00 then Some ([], cs)
      else case read_cstr cs of None \<Rightarrow> None | Some (w, rest) \<Rightarrow> Some (c # w, rest))"

text \<open>
  The loop of \<^verbatim>\<open>load\<close> over the entries.  \<open>None\<close>: the stream ends too early, the tag is
  the number of no enumerator, or \<^verbatim>\<open>find\<close> does not return.
\<close>

function load_loop :: "nat \<Rightarrow> nat \<Rightarrow> dictionary \<Rightarrow> nat \<Rightarrow> string \<Rightarrow> (dictionary \<times> string) option" where
  "load_loop cap tw d i bs =
     (if int i < size_m d then do {
        (w, bs1) \<leftarrow> read_cstr bs;
        (cb, bs2) \<leftarrow> read 8 bs1;
        (tb, bs3) \<leftarrow> read tw bs2;
        ty \<leftarrow> read_type tb;
        h \<leftarrow> find cap (d\<lparr>words_m := words_m d @
               [\<lparr>word = w, count = read_int64 cb, type = ty, subwords = []\<rparr>]\<rparr>) w;
        load_loop cap tw
          (d\<lparr>words_m := words_m d @
               [\<lparr>word = w, count = read_int64 cb, type = ty, subwords = []\<rparr>],
             word2int_m := (word2int_m d)(h := int i)\<rparr>) (i + 1) bs3
      } else Some (d, bs))"
  by pat_completeness auto
termination
  by (relation "measure (\<lambda>(cap, tw, d, i, bs). nat (size_m d) - i)") auto

declare load_loop.simps [simp del]

text \<open>
  \<^verbatim>\<open>quantidx_[k] = v\<close> on the list of the pairs, and the loop of \<^verbatim>\<open>load\<close> that reads the
  pairs.  Its counter is an \<^verbatim>\<open>int\<close>: a size above \<open>2 ^ 31 - 1\<close> makes it overflow (\<open>None\<close>
  in \<open>load\<close>).
\<close>

definition qput :: "int \<Rightarrow> int \<Rightarrow> (int \<times> int) list \<Rightarrow> (int \<times> int) list" where
  "qput k v q =
     (if map_of q k = None then q @ [(k, v)]
      else map (\<lambda>(k', v'). if k' = k then (k', v) else (k', v')) q)"

fun load_pairs :: "nat \<Rightarrow> (int \<times> int) list \<Rightarrow> string \<Rightarrow> ((int \<times> int) list \<times> string) option" where
  "load_pairs 0 q bs = Some (q, bs)"
| "load_pairs (Suc n) q bs = do {
     (kb, bs1) \<leftarrow> read 4 bs;
     (vb, bs2) \<leftarrow> read 4 bs1;
     load_pairs n (qput (read_int32 kb) (read_int32 vb) q) bs2
   }"

definition load_quant :: "dictionary \<Rightarrow> string \<Rightarrow> (dictionary \<times> string) option" where
  "load_quant d bs =
     (if quant_m d then do {
        (nb, bs1) \<leftarrow> read 8 bs;
        if 2147483647 < le_nat nb then None
        else do {
          (q, bs2) \<leftarrow> load_pairs (le_nat nb) (quantidx_m d) bs1;
          Some (d\<lparr>quantidx_m := q\<rparr>, bs2)
        }
      } else Some (d, bs))"

definition load :: "nat \<Rightarrow> nat \<Rightarrow> dictionary \<Rightarrow> string \<Rightarrow> (dictionary \<times> string) option" where
  "load cap tw d bs = do {
     (b1, s1) \<leftarrow> read 4 bs;
     (b2, s2) \<leftarrow> read 4 s1;
     (b3, s3) \<leftarrow> read 4 s2;
     (b4, s4) \<leftarrow> read 8 s3;
     (d1, s5) \<leftarrow> load_loop cap tw
       (d\<lparr>words_m := [], word2int_m := (\<lambda>_. - 1), size_m := read_int32 b1,
          nwords_m := read_int32 b2, nlabels_m := read_int32 b3, ntokens_m := read_int64 b4\<rparr>)
       0 s4;
     (d2, s6) \<leftarrow> load_quant d1 s5;
     d3 \<leftarrow> initTableDiscard d2;
     d4 \<leftarrow> initNgrams d3;
     Some (d4, s6)
   }"

text \<open>
  The bytes that \<^verbatim>\<open>save\<close> writes for one entry, and the entry that \<^verbatim>\<open>load\<close> builds from
  them: the word, the count and the type, with no subwords yet.
\<close>

definition entry_bytes :: "nat \<Rightarrow> entry \<Rightarrow> string" where
  "entry_bytes tw e = word e @ [CHR 0x00] @ write_int64 (count e) @ write_type tw (type e)"

definition bare :: "entry \<Rightarrow> entry" where
  "bare e = e\<lparr>subwords := []\<rparr>"

definition int32_range :: "int \<Rightarrow> bool" where
  "int32_range v \<longleftrightarrow> - (2 ^ 31) \<le> v \<and> v < 2 ^ 31"

definition int64_range :: "int \<Rightarrow> bool" where
  "int64_range v \<longleftrightarrow> - (2 ^ 63) \<le> v \<and> v < 2 ^ 63"

text \<open>
  A dictionary that \<^verbatim>\<open>save\<close> can write and \<^verbatim>\<open>load\<close> can read back: \<^verbatim>\<open>size_\<close> is the
  number of entries, and the table of \<open>cap\<close> slots can hold them; the counters have
  values of their types \<^verbatim>\<open>int32_t\<close> and \<^verbatim>\<open>int64_t\<close>; no word has a zero byte (a zero byte
  is a delimiter of \<^verbatim>\<open>readWord\<close>); and the map of the quantization has a size that an
  \<^verbatim>\<open>int\<close> can count.
\<close>

definition storable :: "nat \<Rightarrow> dictionary \<Rightarrow> bool" where
  "storable cap d \<longleftrightarrow>
     size_m d = int (length (words_m d)) \<and> length (words_m d) \<le> cap \<and>
     int32_range (size_m d) \<and> int32_range (nwords_m d) \<and> int32_range (nlabels_m d) \<and>
     int64_range (ntokens_m d) \<and>
     list_all (\<lambda>e. CHR 0x00 \<notin> set (word e) \<and> int64_range (count e)) (words_m d) \<and>
     length (quantidx_m d) < 2 ^ 31"

text \<open>
  The dictionary with every cache of subwords emptied, and a finalized dictionary: the
  state in which \<^verbatim>\<open>readFromFile\<close> leaves the dictionary, after the last \<^verbatim>\<open>threshold\<close> and
  the one run of \<^verbatim>\<open>initNgrams\<close>.  The subwords of its entries are those that \<^verbatim>\<open>initNgrams\<close>
  computes for the entries as they are stored.
\<close>

definition uncached :: "dictionary \<Rightarrow> dictionary" where
  "uncached d = d\<lparr>words_m := map bare (words_m d)\<rparr>"

definition finalized :: "nat \<Rightarrow> dictionary \<Rightarrow> bool" where
  "finalized cap d \<longleftrightarrow>
     storable cap d \<and> map_option words_m (initNgrams (uncached d)) = Some (words_m d)"

text \<open>
  The end of \<^verbatim>\<open>readFromFile\<close>, after the loop that reads the corpus: the last
  \<^verbatim>\<open>threshold\<close>, with the two minimal counts of the configuration, then
  \<^verbatim>\<open>initTableDiscard\<close> and \<^verbatim>\<open>initNgrams\<close>.  \<open>None\<close> also when the vocabulary is empty (the
  program exits).
\<close>

definition readFromFile_end ::
  "(entry list \<Rightarrow> entry list) \<Rightarrow> nat \<Rightarrow> int \<Rightarrow> int \<Rightarrow> dictionary \<Rightarrow> dictionary option" where
  "readFromFile_end srt cap minCount minCountLabel d = do {
     d1 \<leftarrow> threshold srt cap minCount minCountLabel d;
     d2 \<leftarrow> initTableDiscard d1;
     d3 \<leftarrow> initNgrams d2;
     if size_m d3 = 0 then None else Some d3
   }"

text \<open>
  The dictionary that \<^verbatim>\<open>readFromFile\<close> leaves for the corpus \<^verbatim>\<open>a a b\<close>, with the character
  n-grams \<^verbatim>\<open><a>\<close> and \<^verbatim>\<open><b>\<close> as subwords; the same dictionary after \<^verbatim>\<open>prune\<close> with the
  selected id 1, the word b; and the bytes that \<^verbatim>\<open>save\<close> writes for the latter with a
  type tag of one byte.
\<close>

definition dict_fin :: dictionary where
  "dict_fin = \<lparr>args_m = args0,
     words_m = [\<lparr>word = ''a'', count = 2, type = entry_word, subwords = [0, 1087602]\<rparr>,
                \<lparr>word = ''b'', count = 1, type = entry_word, subwords = [1, 495745]\<rparr>],
     word2int_m = (\<lambda>_. - 1)(16002220 := 0, 6335077 := 1),
     size_m = 2, nwords_m = 2, nlabels_m = 0, ntokens_m = 3,
     pdiscard_m = [sqrt (3 / 20000) + 3 / 20000, sqrt (3 / 10000) + 3 / 10000],
     quant_m = False, quantidx_m = []\<rparr>"

definition dict_compact :: dictionary where
  "dict_compact = \<lparr>args_m = args0,
     words_m = [\<lparr>word = ''b'', count = 1, type = entry_word, subwords = [1, 495745]\<rparr>],
     word2int_m = (\<lambda>_. - 1)(6335077 := 0),
     size_m = 1, nwords_m = 1, nlabels_m = 0, ntokens_m = 3,
     pdiscard_m = [sqrt (3 / 20000) + 3 / 20000, sqrt (3 / 10000) + 3 / 10000],
     quant_m = False, quantidx_m = []\<rparr>"

definition bytes_compact :: string where
  "bytes_compact =
     [CHR 0x01, CHR 0x00, CHR 0x00, CHR 0x00] @ [CHR 0x01, CHR 0x00, CHR 0x00, CHR 0x00] @
     [CHR 0x00, CHR 0x00, CHR 0x00, CHR 0x00] @
     [CHR 0x03, CHR 0x00, CHR 0x00, CHR 0x00, CHR 0x00, CHR 0x00, CHR 0x00, CHR 0x00] @
     ''b'' @ [CHR 0x00] @
     [CHR 0x01, CHR 0x00, CHR 0x00, CHR 0x00, CHR 0x00, CHR 0x00, CHR 0x00, CHR 0x00] @ [CHR 0x00]"

section \<open>Properties\<close>

subsection \<open>The hash\<close>

lemma hash_loop_fold:
  "i \<le> length str \<Longrightarrow>
   hash_loop str i h = fold (\<lambda>c h. (h XOR uint32_t c) * 16777619) (drop i str) h"
proof (induction str i h rule: hash_loop.induct)
  case (1 str i h)
  show ?case
  proof (cases "i < length str")
    case True
    then have "drop i str = str ! i # drop (Suc i) str"
      by (simp add: Cons_nth_drop_Suc)
    with True 1 show ?thesis
      by (simp add: hash_loop.simps [of str i h])
  next
    case False
    with 1 have "i = length str" by simp
    then show ?thesis
      by (simp add: hash_loop.simps [of str "length str" h])
  qed
qed
lemma unat_step:
  "unat ((h XOR uint32_t c) * 16777619) = fnv1a_signed_step c (unat h)"
proof -
  have a: "unat (uint32_t c) = nat (schar c mod 2 ^ 32)"
    unfolding uint32_t_def by (simp add: unat_eq_nat_uint uint_word_of_int take_bit_eq_mod del: power_numeral)
  have b: "unat ((h XOR uint32_t c) * 16777619) = (unat (h XOR uint32_t c) * unat (16777619 :: 32 word)) mod 2 ^ 32"
    by (simp add: unat_word_ariths)
  have c: "unat (16777619 :: 32 word) = 16777619" by simp
  show ?thesis unfolding b c fnv1a_signed_step_def unsigned_xor_eq a ..
qed

lemma unat_fold:
  "unat (fold (\<lambda>c h. (h XOR uint32_t c) * 16777619) s h) = fold fnv1a_signed_step s (unat h)"
  by (induction s arbitrary: h) (simp_all add: unat_step)

lemma ascii_step:
  assumes "(of_char c :: nat) < 128"
  shows "fnv1a_signed_step c h = fnv1a_step c h"
proof -
  have "schar c mod 2 ^ 32 = int (of_char c)"
    using assms by (simp add: schar_def)
  then show ?thesis
    by (simp add: fnv1a_signed_step_def fnv1a_step_def del: power_numeral)
qed

lemma ascii_fold: "\<forall>c\<in>set s. (of_char c :: nat) < 128 \<Longrightarrow> fold fnv1a_signed_step s h = fold fnv1a_step s h"
  by (induction s arbitrary: h) (simp_all add: ascii_step)

text \<open>
  Claim C7, as the code has it.  \<^verbatim>\<open>hash\<close> is the 32-bit fold from the offset basis
  2166136261 that XORs each \<^verbatim>\<open>char\<close>, converted to \<^verbatim>\<open>uint32_t\<close> and so sign-extended,
  into the accumulator and multiplies by 16777619 modulo \<open>2 ^ 32\<close>.  On a string of
  bytes below 128 this is the FNV-1a hash of the byte values.
\<close>

theorem hash_fnv1a:
  "unat (hash s) = fnv1a_signed s \<and>
   ((\<forall>c\<in>set s. (of_char c :: nat) < 128) \<longrightarrow> unat (hash s) = fnv1a s)"
  by (simp add: hash_def hash_loop_fold unat_fold fnv1a_signed_def fnv1a_def ascii_fold)

theorem hash_fnv1a_witness:
  "unat (hash ''hello'') = fnv1a ''hello'' \<and> unat (hash ''hello'') = fnv1a_signed ''hello''"
  using hash_fnv1a [of "''hello''"] by simp

text \<open>
  Claim C7 as stated fails at the one-byte string \<^verbatim>\<open>"\x80"\<close>: the code XORs
  \<^verbatim>\<open>0xFFFFFF80\<close> into the accumulator, FNV-1a the byte value \<^verbatim>\<open>0x80\<close>.
\<close>

theorem hash_fnv1a_counterexample:
  "unat (hash [CHR 0x80]) \<noteq> fnv1a [CHR 0x80]"
  by (simp add: hash_def hash_loop.simps uint32_t_def schar_def fnv1a_def fnv1a_step_def)

subsection \<open>The probing loop\<close>

lemma probe_Suc: "Suc (probe cap w k) mod cap = probe cap w (Suc k)"
  by (simp add: probe_def mod_Suc_eq)

lemma probe_less: "0 < cap \<Longrightarrow> probe cap w k < cap"
  by (simp add: probe_def)

lemma probe_surj:
  assumes "h < cap"
  shows "\<exists>k<cap. probe cap w k = h"
proof -
  define h0 where "h0 = unat (hash w) mod cap"
  have h0: "h0 < cap" using assms by (simp add: h0_def)
  show ?thesis
  proof (cases "h0 \<le> h")
    case True
    then have "probe cap w (h - h0) = h" using assms by (simp add: probe_def h0_def [symmetric])
    moreover have "h - h0 < cap" using assms by simp
    ultimately show ?thesis by blast
  next
    case False
    then have "probe cap w (cap + h - h0) = h" using assms h0
      by (simp add: probe_def h0_def [symmetric])
    moreover have "cap + h - h0 < cap" using False h0 by simp
    ultimately show ?thesis by blast
  qed
qed

lemma find_loop_run:
  assumes "0 < cap"
    and "\<forall>j. k0 \<le> j \<and> j < k \<longrightarrow> slot_passes d w (probe cap w j)"
    and "slot_stops d w (probe cap w k)"
    and "k0 \<le> k"
  shows "find_loop cap d w (probe cap w k0) = Some (probe cap w k)"
  using assms(2,4)
proof (induction "k - k0" arbitrary: k0)
  case 0
  then have "k0 = k" by simp
  with assms(3) show ?case
    by (subst find_loop.simps) (auto simp: slot_stops_def Let_def)
next
  case (Suc n)
  then have lt: "k0 < k" by simp
  with Suc.prems have p: "slot_passes d w (probe cap w k0)" by simp
  have "find_loop cap d w (probe cap w (Suc k0)) = Some (probe cap w k)"
    using Suc.hyps(1) [of "Suc k0"] Suc.hyps(2) Suc.prems lt by simp
  with p show ?case
    by (subst find_loop.simps) (auto simp: slot_passes_def Let_def probe_Suc)
qed

lemma find_returns:
  assumes cap: "0 < cap"
    and range: "\<forall>h<cap. word2int_m d h = - 1 \<or> (0 \<le> word2int_m d h \<and> word2int_m d h < int (length (words_m d)))"
    and empty: "has_empty_slot cap d"
  shows "\<exists>k<cap. find cap d w = Some (probe cap w k) \<and> slot_stops d w (probe cap w k) \<and>
            (\<forall>j<k. slot_passes d w (probe cap w j))"
proof -
  from empty obtain h where h: "h < cap" "word2int_m d h = - 1"
    by (auto simp: has_empty_slot_def)
  from probe_surj [OF h(1)] obtain k1 where k1: "k1 < cap" "probe cap w k1 = h" by blast
  then have ex: "slot_stops d w (probe cap w k1)" using h by (simp add: slot_stops_def)
  define k where "k = (LEAST k. slot_stops d w (probe cap w k))"
  have stop: "slot_stops d w (probe cap w k)"
    unfolding k_def using ex by (rule LeastI)
  have kle: "k \<le> k1" unfolding k_def using ex by (rule Least_le)
  have pass: "slot_passes d w (probe cap w j)" if "j < k" for j
  proof -
    from that have "\<not> slot_stops d w (probe cap w j)"
      unfolding k_def by (rule not_less_Least)
    moreover have "probe cap w j < cap" using cap by (rule probe_less)
    ultimately show ?thesis using range
      by (auto simp: slot_stops_def slot_passes_def)
  qed
  have "find_loop cap d w (probe cap w 0) = Some (probe cap w k)"
    by (rule find_loop_run [OF cap _ stop]) (auto intro: pass)
  moreover have "probe cap w 0 = unat (hash w) mod cap"
    using cap by (simp add: probe_def)
  ultimately have "find cap d w = Some (probe cap w k)" by (simp add: find_def)
  with stop pass kle k1(1) show ?thesis by (intro exI [of _ k]) auto
qed

lemma index_consistent_upto:
  "index_consistent cap d \<longleftrightarrow>
     size_m d = int (length (words_m d)) \<and>
     index_upto cap (words_m d) (length (words_m d)) (word2int_m d)"
  by (auto simp: index_consistent_def index_upto_def)

lemma finite_occupied: "finite (occupied cap d)"
  by (simp add: occupied_def)

lemma card_occupied_le: "card (occupied cap d) \<le> cap"
proof -
  have "occupied cap d \<subseteq> {..<cap}" by (auto simp: occupied_def)
  then have "card (occupied cap d) \<le> card {..<cap}" by (intro card_mono) auto
  then show ?thesis by simp
qed

lemma empty_slot_card:
  assumes "card (occupied cap d) < cap"
  shows "has_empty_slot cap d"
proof (rule ccontr)
  assume "\<not> has_empty_slot cap d"
  then have "occupied cap d = {..<cap}"
    by (auto simp: has_empty_slot_def occupied_def)
  with assms show False by simp
qed

lemma occupied_update:
  "card (occupied cap (d\<lparr>word2int_m := (word2int_m d)(h := v)\<rparr>)) \<le> Suc (card (occupied cap d))"
proof -
  have "occupied cap (d\<lparr>word2int_m := (word2int_m d)(h := v)\<rparr>) \<subseteq> insert h (occupied cap d)"
    by (auto simp: occupied_def)
  then have "card (occupied cap (d\<lparr>word2int_m := (word2int_m d)(h := v)\<rparr>))
      \<le> card (insert h (occupied cap d))"
    by (intro card_mono) (auto simp: finite_occupied)
  also have "\<dots> \<le> Suc (card (occupied cap d))"
    by (simp add: card_insert_if finite_occupied)
  finally show ?thesis .
qed

text \<open>A probe for a word that is not among the indexed entries ends at an empty slot.\<close>

lemma find_absent:
  assumes cap: "0 < cap"
    and idx: "index_upto cap ws n (word2int_m d)"
    and len: "n \<le> length (words_m d)"
    and same: "\<forall>i<n. word (words_m d ! i) = word (ws ! i)"
    and empty: "has_empty_slot cap d"
    and absent: "\<forall>i<n. word (ws ! i) \<noteq> w"
  shows "\<exists>k<cap. find cap d w = Some (probe cap w k) \<and>
           word2int_m d (probe cap w k) = - 1 \<and>
           (\<forall>j<k. word2int_m d (probe cap w j) \<noteq> - 1)"
proof -
  have range: "\<forall>h<cap. word2int_m d h = - 1 \<or>
      (0 \<le> word2int_m d h \<and> word2int_m d h < int (length (words_m d)))"
    using idx len by (fastforce simp: index_upto_def)
  from find_returns [OF cap range empty, of w]
  obtain k where k: "k < cap" "find cap d w = Some (probe cap w k)"
    "slot_stops d w (probe cap w k)" "\<forall>j<k. slot_passes d w (probe cap w j)"
    by blast
  have "word2int_m d (probe cap w k) = - 1"
  proof (rule ccontr)
    assume ne: "word2int_m d (probe cap w k) \<noteq> - 1"
    define p where "p = nat (word2int_m d (probe cap w k))"
    have "probe cap w k < cap" using cap by (rule probe_less)
    with idx ne have "p < n" by (auto simp: index_upto_def p_def)
    moreover from k(3) ne have "word (words_m d ! p) = w"
      by (simp add: slot_stops_def p_def)
    ultimately show False using same absent by auto
  qed
  moreover have "\<forall>j<k. word2int_m d (probe cap w j) \<noteq> - 1"
    using k(4) by (auto simp: slot_passes_def)
  ultimately show ?thesis using k(1,2) by blast
qed

lemma index_upto_extend:
  assumes idx: "index_upto cap ws n f"
    and n: "n < length ws"
    and k: "k < cap" "f (probe cap (word (ws ! n)) k) = - 1"
      "\<forall>j<k. f (probe cap (word (ws ! n)) j) \<noteq> - 1"
  shows "index_upto cap ws (Suc n) (f(probe cap (word (ws ! n)) k := int n))"
proof -
  let ?h = "probe cap (word (ws ! n)) k"
  let ?g = "f(?h := int n)"
  have ne: "?g x \<noteq> - 1" if "f x \<noteq> - 1" for x
    using that by simp
  have r: "\<forall>h<cap. ?g h = - 1 \<or> (0 \<le> ?g h \<and> ?g h < int (Suc n))"
    using idx by (fastforce simp: index_upto_def)
  have old: "\<exists>k'<cap. ?g (probe cap (word (ws ! i)) k') = int i \<and>
               (\<forall>j<k'. ?g (probe cap (word (ws ! i)) j) \<noteq> - 1)" if "i < n" for i
  proof -
    from idx that obtain k' where k': "k' < cap" "f (probe cap (word (ws ! i)) k') = int i"
      "\<forall>j<k'. f (probe cap (word (ws ! i)) j) \<noteq> - 1"
      by (auto simp: index_upto_def)
    from k'(2) k(2) have "probe cap (word (ws ! i)) k' \<noteq> ?h" by auto
    then have "?g (probe cap (word (ws ! i)) k') = int i" using k'(2) by simp
    moreover have "\<forall>j<k'. ?g (probe cap (word (ws ! i)) j) \<noteq> - 1"
      using k'(3) ne by blast
    ultimately show ?thesis using k'(1) by blast
  qed
  have new: "\<exists>k'<cap. ?g (probe cap (word (ws ! n)) k') = int n \<and>
               (\<forall>j<k'. ?g (probe cap (word (ws ! n)) j) \<noteq> - 1)"
    using k(1,3) ne by (intro exI [of _ k]) auto
  have "\<exists>k'<cap. ?g (probe cap (word (ws ! i)) k') = int i \<and>
               (\<forall>j<k'. ?g (probe cap (word (ws ! i)) j) \<noteq> - 1)" if "i < Suc n" for i
    using that old new by (cases "i = n") auto
  with r n show ?thesis by (simp add: index_upto_def)
qed

lemma index_upto_cong:
  assumes "index_upto cap ws n f" and "n \<le> length ws'" and "\<forall>i<n. word (ws' ! i) = word (ws ! i)"
  shows "index_upto cap ws' n f"
  using assms by (simp add: index_upto_def)

text \<open>A probe for a stored word ends at a slot that holds an entry of that word.\<close>

lemma find_present:
  assumes cap: "0 < cap"
    and ok: "index_consistent cap d"
    and empty: "has_empty_slot cap d"
    and present: "w \<in> word ` set (words_m d)"
  shows "\<exists>h<cap. find cap d w = Some h \<and> 0 \<le> word2int_m d h \<and>
           word2int_m d h < size_m d \<and> word (words_m d ! nat (word2int_m d h)) = w"
proof -
  from ok have sz: "size_m d = int (length (words_m d))"
    and range: "\<forall>h<cap. word2int_m d h = - 1 \<or>
        (0 \<le> word2int_m d h \<and> word2int_m d h < int (length (words_m d)))"
    and reach: "\<forall>i<length (words_m d). \<exists>k<cap.
         word2int_m d (probe cap (word (words_m d ! i)) k) = int i \<and>
         (\<forall>j<k. word2int_m d (probe cap (word (words_m d ! i)) j) \<noteq> - 1)"
    by (auto simp: index_consistent_def)
  from find_returns [OF cap range empty, of w]
  obtain k where k: "k < cap" "find cap d w = Some (probe cap w k)"
    "slot_stops d w (probe cap w k)" "\<forall>j<k. slot_passes d w (probe cap w j)"
    by blast
  have "word2int_m d (probe cap w k) \<noteq> - 1"
  proof
    assume e: "word2int_m d (probe cap w k) = - 1"
    from present obtain i where i: "i < length (words_m d)" "word (words_m d ! i) = w"
      by (auto simp: in_set_conv_nth)
    with reach obtain ki where ki: "word2int_m d (probe cap w ki) = int i"
      "\<forall>j<ki. word2int_m d (probe cap w j) \<noteq> - 1" by blast
    have "\<not> ki < k"
    proof
      assume "ki < k"
      with k(4) have "slot_passes d w (probe cap w ki)" by simp
      with ki(1) i show False by (simp add: slot_passes_def)
    qed
    moreover have "\<not> k < ki" using ki(2) e by auto
    ultimately have "k = ki" by simp
    with ki(1) e show False by simp
  qed
  with k(3) have "0 \<le> word2int_m d (probe cap w k) \<and>
      word2int_m d (probe cap w k) < size_m d \<and>
      word (words_m d ! nat (word2int_m d (probe cap w k))) = w"
    by (simp add: slot_stops_def sz)
  moreover have "probe cap w k < cap" using cap by (rule probe_less)
  ultimately show ?thesis using k(2) by blast
qed

lemma find_absent_consistent:
  assumes cap: "0 < cap"
    and ok: "index_consistent cap d"
    and empty: "has_empty_slot cap d"
    and absent: "w \<notin> word ` set (words_m d)"
  shows "\<exists>k<cap. find cap d w = Some (probe cap w k) \<and>
           word2int_m d (probe cap w k) = - 1 \<and>
           (\<forall>j<k. word2int_m d (probe cap w j) \<noteq> - 1)"
proof (rule find_absent [OF cap _ _ _ empty])
  show "index_upto cap (words_m d) (length (words_m d)) (word2int_m d)"
    using ok by (simp add: index_consistent_upto)
  show "\<forall>i<length (words_m d). word (words_m d ! i) \<noteq> w"
    using absent by (metis imageI nth_mem)
qed simp_all


lemma word_bump: "word (bump w e) = word e"
  by (simp add: bump_def)

lemma word_new_entry: "word (new_entry a w) = w"
  by (simp add: new_entry_def)

lemma map_word_bump: "map word (map (bump w) ws) = map word ws"
  by (induction ws) (simp_all add: bump_def)

lemma bump_update:
  assumes "distinct (map word ws)" and "p < length ws" and "word (ws ! p) = w"
  shows "ws[p := (ws ! p)\<lparr>count := count (ws ! p) + 1\<rparr>] = map (bump w) ws"
proof (rule nth_equalityI)
  show "length (ws[p := (ws ! p)\<lparr>count := count (ws ! p) + 1\<rparr>]) = length (map (bump w) ws)"
    by simp
next
  fix i assume "i < length (ws[p := (ws ! p)\<lparr>count := count (ws ! p) + 1\<rparr>])"
  then have i: "i < length ws" by simp
  show "ws[p := (ws ! p)\<lparr>count := count (ws ! p) + 1\<rparr>] ! i = map (bump w) ws ! i"
  proof (cases "i = p")
    case True
    with assms show ?thesis by (simp add: bump_def)
  next
    case False
    have "word (ws ! i) \<noteq> word (ws ! p)"
    proof
      assume "word (ws ! i) = word (ws ! p)"
      then have "map word ws ! i = map word ws ! p" using i assms(2) by simp
      with assms(1) i assms(2) have "i = p"
        using nth_eq_iff_index_eq [of "map word ws" i p] by simp
      with False show False by contradiction
    qed
    with False i assms(3) show ?thesis by (simp add: bump_def)
  qed
qed

lemma add_absent:
  assumes cap: "0 < cap"
    and ok: "store_ok cap d"
    and room: "length (words_m d) < cap"
    and absent: "w \<notin> word ` set (words_m d)"
  shows "\<exists>d'. add cap d w = Some d' \<and> store_ok cap d' \<and>
           words_m d' = words_m d @ [new_entry (args_m d) w] \<and>
           ntokens_m d' = ntokens_m d + 1 \<and> args_m d' = args_m d"
proof -
  from ok have ic: "index_consistent cap d" and dist: "distinct (map word (words_m d))"
    and card: "card (occupied cap d) \<le> length (words_m d)"
    by (auto simp: store_ok_def)
  from card room have empty: "has_empty_slot cap d"
    by (intro empty_slot_card) simp
  from find_absent_consistent [OF cap ic empty absent]
  obtain k where k: "k < cap" "find cap d w = Some (probe cap w k)"
    "word2int_m d (probe cap w k) = - 1" "\<forall>j<k. word2int_m d (probe cap w j) \<noteq> - 1"
    by blast
  let ?ws = "words_m d @ [new_entry (args_m d) w]"
  let ?n = "length (words_m d)"
  define d' where "d' = d\<lparr>ntokens_m := ntokens_m d + 1, words_m := ?ws,
      word2int_m := (word2int_m d)(probe cap w k := size_m d), size_m := size_m d + 1\<rparr>"
  from ic have sz: "size_m d = int ?n" by (simp add: index_consistent_def)
  have a: "add cap d w = Some d'"
    by (simp add: add_def k(2,3) d'_def new_entry_def Let_def)
  have "index_upto cap (words_m d) ?n (word2int_m d)"
    using ic by (simp add: index_consistent_upto)
  then have "index_upto cap ?ws ?n (word2int_m d)"
    by (rule index_upto_cong) (simp_all add: nth_append)
  moreover have wn: "word (?ws ! ?n) = w" by (simp add: new_entry_def)
  ultimately have "index_upto cap ?ws (Suc ?n) ((word2int_m d)(probe cap (word (?ws ! ?n)) k := int ?n))"
    using k by (intro index_upto_extend) simp_all
  then have "index_consistent cap d'"
    by (simp add: index_consistent_upto d'_def sz word_new_entry)
  moreover have "distinct (map word (words_m d'))"
    using dist absent by (simp add: d'_def new_entry_def)
  moreover have "card (occupied cap d') \<le> length (words_m d')"
  proof -
    have "occupied cap d' = occupied cap (d\<lparr>word2int_m := (word2int_m d)(probe cap w k := size_m d)\<rparr>)"
      by (simp add: occupied_def d'_def)
    then have "card (occupied cap d') \<le> Suc (card (occupied cap d))"
      by (simp add: occupied_update)
    with card show ?thesis by (simp add: d'_def)
  qed
  ultimately have "store_ok cap d'" by (simp add: store_ok_def)
  with a show ?thesis by (intro exI [of _ d']) (simp add: d'_def)
qed

lemma add_present:
  assumes cap: "0 < cap"
    and ok: "store_ok cap d"
    and room: "length (words_m d) < cap"
    and present: "w \<in> word ` set (words_m d)"
  shows "\<exists>d'. add cap d w = Some d' \<and> store_ok cap d' \<and>
           words_m d' = map (bump w) (words_m d) \<and>
           ntokens_m d' = ntokens_m d + 1 \<and> args_m d' = args_m d"
proof -
  from ok have ic: "index_consistent cap d" and dist: "distinct (map word (words_m d))"
    and card: "card (occupied cap d) \<le> length (words_m d)"
    by (auto simp: store_ok_def)
  from card room have empty: "has_empty_slot cap d"
    by (intro empty_slot_card) simp
  from ic have sz: "size_m d = int (length (words_m d))" by (simp add: index_consistent_def)
  from find_present [OF cap ic empty present]
  obtain h where h: "h < cap" "find cap d w = Some h" "0 \<le> word2int_m d h"
    "word2int_m d h < size_m d" "word (words_m d ! nat (word2int_m d h)) = w"
    by blast
  define p where "p = nat (word2int_m d h)"
  have p: "p < length (words_m d)" "word (words_m d ! p) = w"
    using h sz by (simp_all add: p_def)
  define d' where "d' = d\<lparr>ntokens_m := ntokens_m d + 1, words_m := map (bump w) (words_m d)\<rparr>"
  have ne: "word2int_m d h \<noteq> - 1" using h(3) by simp
  have a: "add cap d w = Some d'"
    using ne by (simp add: add_def h(2) Let_def d'_def p_def [symmetric] bump_update [OF dist p])
  have "index_upto cap (words_m d) (length (words_m d)) (word2int_m d)"
    using ic by (simp add: index_consistent_upto)
  then have "index_upto cap (map (bump w) (words_m d)) (length (words_m d)) (word2int_m d)"
    by (rule index_upto_cong) (simp_all add: word_bump)
  then have "index_consistent cap d'"
    by (simp add: index_consistent_upto d'_def sz)
  moreover have "distinct (map word (words_m d'))"
    using dist by (simp add: d'_def map_word_bump del: map_map)
  moreover have "occupied cap d' = occupied cap d" by (simp add: occupied_def d'_def)
  ultimately have "store_ok cap d'" using card by (simp add: store_ok_def d'_def)
  with a show ?thesis by (intro exI [of _ d']) (simp add: d'_def)
qed

lemma Dictionary_ok: "store_ok cap (Dictionary a)"
  by (simp add: store_ok_def index_consistent_def Dictionary_def occupied_def)

lemma entry_less_iff:
  "entry_less a b \<longleftrightarrow>
     type_rank (type a) < type_rank (type b) \<or> (type a = type b \<and> count b < count a)"
  by (auto simp: entry_less_def type_rank_def split: entry_type.splits)

lemma mset_insert_entry: "mset (insert_entry e xs) = add_mset e (mset xs)"
  by (induction xs) simp_all

lemma set_insert_entry: "set (insert_entry e xs) = insert e (set xs)"
  by (induction xs) auto

lemma entry_le_trans:
  "\<not> entry_less b a \<Longrightarrow> \<not> entry_less c b \<Longrightarrow> \<not> entry_less c a"
  unfolding entry_less_iff by (cases "type a"; cases "type b"; cases "type c") (simp_all add: type_rank_def)

lemma entry_less_asym: "entry_less a b \<Longrightarrow> \<not> entry_less b a"
  unfolding entry_less_iff by (cases "type a"; cases "type b") (simp_all add: type_rank_def)

lemma sorted_insert_entry:
  "sorted_wrt (\<lambda>a b. \<not> entry_less b a) xs \<Longrightarrow>
   sorted_wrt (\<lambda>a b. \<not> entry_less b a) (insert_entry e xs)"
proof (induction xs)
  case Nil
  then show ?case by simp
next
  case (Cons x xs)
  show ?case
  proof (cases "entry_less x e")
    case True
    then have "\<not> entry_less e x" by (rule entry_less_asym)
    with True Cons show ?thesis
      by (simp add: set_insert_entry)
  next
    case False
    have "\<not> entry_less y e" if "y \<in> set xs" for y
    proof -
      from Cons.prems that have "\<not> entry_less y x" by simp
      with False show ?thesis by (rule entry_le_trans)
    qed
    with False Cons.prems show ?thesis by simp
  qed
qed

lemma insertion_sort_contract: "std_sort_contract insertion_sort"
proof -
  have "mset (foldr insert_entry xs []) = mset xs" for xs
    by (induction xs) (simp_all add: mset_insert_entry)
  moreover have "sorted_wrt (\<lambda>a b. \<not> entry_less b a) (foldr insert_entry xs [])" for xs
    by (induction xs) (simp_all add: sorted_insert_entry)
  ultimately show ?thesis by (simp add: std_sort_contract_def insertion_sort_def)
qed

lemma index_entry_fields:
  "words_m (index_entry d h e) = words_m d"
  "size_m (index_entry d h e) = size_m d + 1"
  "word2int_m (index_entry d h e) = (word2int_m d)(h := size_m d)"
  "nwords_m (index_entry d h e) = nwords_m d + (if type e = entry_word then 1 else 0)"
  "nlabels_m (index_entry d h e) = nlabels_m d + (if type e = entry_label then 1 else 0)"
  "args_m (index_entry d h e) = args_m d"
  "ntokens_m (index_entry d h e) = ntokens_m d"
  "pdiscard_m (index_entry d h e) = pdiscard_m d"
  "quant_m (index_entry d h e) = quant_m d"
  "quantidx_m (index_entry d h e) = quantidx_m d"
  by (simp_all add: index_entry_def Let_def)

lemma threshold_loop_fields:
  "threshold_loop cap es d = Some d' \<Longrightarrow>
   words_m d' = words_m d \<and> size_m d' = size_m d + int (length es) \<and>
   nwords_m d' = nwords_m d + int (length (filter (\<lambda>e. type e = entry_word) es)) \<and>
   nlabels_m d' = nlabels_m d + int (length (filter (\<lambda>e. type e = entry_label) es)) \<and>
   args_m d' = args_m d \<and> ntokens_m d' = ntokens_m d \<and> pdiscard_m d' = pdiscard_m d \<and>
   quant_m d' = quant_m d \<and> quantidx_m d' = quantidx_m d"
proof (induction es arbitrary: d)
  case Nil
  then show ?case by simp
next
  case (Cons e es)
  from Cons.prems obtain h where h: "find cap d (word e) = Some h"
    by (auto split: bind_splits)
  define d3 where "d3 = index_entry d h e"
  from Cons.prems h have "threshold_loop cap es d3 = Some d'"
    by (simp add: d3_def)
  from Cons.IH [OF this] show ?case
    by (cases "type e") (simp_all add: d3_def index_entry_fields)
qed

lemma threshold_loop_returns:
  assumes "0 < cap"
    and "\<forall>h<cap. word2int_m d h = - 1 \<or>
           (0 \<le> word2int_m d h \<and> word2int_m d h < int (length (words_m d)))"
    and "0 \<le> size_m d" and "size_m d + int (length es) \<le> int (length (words_m d))"
    and "card (occupied cap d) + length es \<le> cap"
  shows "\<exists>d'. threshold_loop cap es d = Some d'"
  using assms(2-)
proof (induction es arbitrary: d)
  case Nil
  then show ?case by simp
next
  case (Cons e es)
  from Cons.prems(4) have "has_empty_slot cap d"
    by (intro empty_slot_card) simp
  from find_returns [OF assms(1) Cons.prems(1) this, of "word e"]
  obtain h where h: "find cap d (word e) = Some h" by blast
  define d3 where "d3 = index_entry d h e"
  have f: "words_m d3 = words_m d" "size_m d3 = size_m d + 1"
    "word2int_m d3 = (word2int_m d)(h := size_m d)"
    by (simp_all add: d3_def index_entry_fields)
  have "occupied cap d3 = occupied cap (d\<lparr>word2int_m := (word2int_m d)(h := size_m d)\<rparr>)"
    by (simp add: occupied_def f)
  then have c: "card (occupied cap d3) \<le> Suc (card (occupied cap d))"
    by (simp add: occupied_update)
  have "\<exists>d'. threshold_loop cap es d3 = Some d'"
  proof (rule Cons.IH)
    show "\<forall>h<cap. word2int_m d3 h = - 1 \<or>
           (0 \<le> word2int_m d3 h \<and> word2int_m d3 h < int (length (words_m d3)))"
      using Cons.prems(1,2,3) by (auto simp: f)
    show "0 \<le> size_m d3" using Cons.prems(2) by (simp add: f)
    show "size_m d3 + int (length es) \<le> int (length (words_m d3))"
      using Cons.prems(3) by (simp add: f)
    show "card (occupied cap d3) + length es \<le> cap"
      using c Cons.prems(4) by simp
  qed
  with h show ?case by (simp add: d3_def)
qed

lemma threshold_loop_index:
  assumes cap: "0 < cap"
    and ws: "words_m d = ws" "distinct (map word ws)" "length ws \<le> cap"
    and n: "size_m d = int n" "index_upto cap ws n (word2int_m d)" "card (occupied cap d) \<le> n"
  shows "\<exists>d'. threshold_loop cap (drop n ws) d = Some d' \<and>
           index_upto cap ws (length ws) (word2int_m d') \<and>
           card (occupied cap d') \<le> length ws"
  using ws(1) n
proof (induction "length ws - n" arbitrary: n d)
  case 0
  then have "n = length ws" by (simp add: index_upto_def)
  with 0 show ?case by simp
next
  case (Suc m)
  then have lt: "n < length ws" by simp
  let ?e = "ws ! n"
  have dr: "drop n ws = ?e # drop (Suc n) ws"
    using lt by (simp add: Cons_nth_drop_Suc)
  have empty: "has_empty_slot cap d"
    using Suc.prems(4) lt ws(3) by (intro empty_slot_card) simp
  have absent: "\<forall>i<n. word (ws ! i) \<noteq> word ?e"
  proof (intro allI impI)
    fix i assume "i < n"
    then have "map word ws ! i \<noteq> map word ws ! n"
      using ws(2) lt nth_eq_iff_index_eq [of "map word ws" i n] by simp
    then show "word (ws ! i) \<noteq> word ?e" using lt \<open>i < n\<close> by simp
  qed
  from find_absent [OF cap Suc.prems(3) _ _ empty absent]
  obtain k where k: "k < cap" "find cap d (word ?e) = Some (probe cap (word ?e) k)"
    "word2int_m d (probe cap (word ?e) k) = - 1"
    "\<forall>j<k. word2int_m d (probe cap (word ?e) j) \<noteq> - 1"
    using Suc.prems(1) lt by auto
  let ?h = "probe cap (word ?e) k"
  define d3 where "d3 = index_entry d ?h ?e"
  have f: "words_m d3 = ws" "size_m d3 = int (Suc n)"
    "word2int_m d3 = (word2int_m d)(?h := int n)"
    using Suc.prems(1,2) by (simp_all add: d3_def index_entry_fields)
  have "occupied cap d3 = occupied cap (d\<lparr>word2int_m := (word2int_m d)(?h := int n)\<rparr>)"
    by (simp add: occupied_def f)
  then have c: "card (occupied cap d3) \<le> Suc (card (occupied cap d))"
    by (simp add: occupied_update)
  have "\<exists>d'. threshold_loop cap (drop (Suc n) ws) d3 = Some d' \<and>
           index_upto cap ws (length ws) (word2int_m d') \<and>
           card (occupied cap d') \<le> length ws"
  proof (rule Suc.hyps(1))
    show "m = length ws - Suc n" using Suc.hyps(2) by simp
    show "words_m d3 = ws" by (rule f)
    show "size_m d3 = int (Suc n)" by (rule f)
    show "index_upto cap ws (Suc n) (word2int_m d3)"
      unfolding f using Suc.prems(3) lt k(1,3,4) by (rule index_upto_extend)
    show "card (occupied cap d3) \<le> Suc n" using c Suc.prems(4) by simp
  qed
  then show ?case
    by (simp add: dr k(2) d3_def)
qed

lemma length_kept:
  assumes "std_sort_contract srt"
  shows "length (kept srt t tlab ws) \<le> length ws"
proof -
  from assms have "mset (srt ws) = mset ws" by (simp add: std_sort_contract_def)
  then have "length (srt ws) = length ws" by (rule mset_eq_length)
  moreover have "length (kept srt t tlab ws) \<le> length (srt ws)" by (simp add: kept_def)
  ultimately show ?thesis by simp
qed

lemma distinct_kept:
  assumes "std_sort_contract srt" and "distinct (map word ws)"
  shows "distinct (map word (kept srt t tlab ws))"
proof -
  from assms(1) have "mset (srt ws) = mset ws" by (simp add: std_sort_contract_def)
  then have "mset (map word (srt ws)) = mset (map word ws)" by (metis mset_map)
  with assms(2) have "distinct (map word (srt ws))" by (metis mset_eq_imp_distinct_iff)
  then show ?thesis by (simp add: kept_def distinct_map_filter)
qed

lemma threshold_spec:
  assumes srt: "std_sort_contract srt" and cap: "0 < cap" and len: "length (words_m d) \<le> cap"
  shows "\<exists>d'. threshold srt cap t tlab d = Some d' \<and>
     words_m d' = kept srt t tlab (words_m d) \<and>
     size_m d' = int (length (words_m d')) \<and>
     nwords_m d' = int (length (filter (\<lambda>e. type e = entry_word) (words_m d'))) \<and>
     nlabels_m d' = int (length (filter (\<lambda>e. type e = entry_label) (words_m d'))) \<and>
     args_m d' = args_m d \<and> ntokens_m d' = ntokens_m d \<and> pdiscard_m d' = pdiscard_m d \<and>
     quant_m d' = quant_m d \<and> quantidx_m d' = quantidx_m d"
proof -
  let ?ws = "kept srt t tlab (words_m d)"
  define d1 where "d1 = d\<lparr>words_m := ?ws, size_m := 0, nwords_m := 0, nlabels_m := 0,
                 word2int_m := (\<lambda>_. - 1)\<rparr>"
  have th: "threshold srt cap t tlab d = threshold_loop cap ?ws d1"
    by (simp add: threshold_def kept_def d1_def Let_def)
  have occ: "occupied cap d1 = {}" by (simp add: occupied_def d1_def)
  have "\<exists>d'. threshold_loop cap ?ws d1 = Some d'"
  proof (rule threshold_loop_returns [OF cap])
    show "card (occupied cap d1) + length ?ws \<le> cap"
      using length_kept [OF srt, of t tlab "words_m d"] len by (simp add: occ)
  qed (simp_all add: d1_def)
  then obtain d' where d': "threshold_loop cap ?ws d1 = Some d'" ..
  from threshold_loop_fields [OF d'] th d' show ?thesis
    by (intro exI [of _ d']) (simp add: d1_def)
qed

lemma threshold_store_ok:
  assumes srt: "std_sort_contract srt" and cap: "0 < cap" and len: "length (words_m d) \<le> cap"
    and dist: "distinct (map word (words_m d))"
    and ret: "threshold srt cap t tlab d = Some d'"
  shows "store_ok cap d'"
proof -
  let ?ws = "kept srt t tlab (words_m d)"
  define d1 where "d1 = d\<lparr>words_m := ?ws, size_m := 0, nwords_m := 0, nlabels_m := 0,
                 word2int_m := (\<lambda>_. - 1)\<rparr>"
  have th: "threshold srt cap t tlab d = threshold_loop cap ?ws d1"
    by (simp add: threshold_def kept_def d1_def Let_def)
  have "\<exists>d2. threshold_loop cap (drop 0 ?ws) d1 = Some d2 \<and>
           index_upto cap ?ws (length ?ws) (word2int_m d2) \<and>
           card (occupied cap d2) \<le> length ?ws"
  proof (rule threshold_loop_index [OF cap])
    show "words_m d1 = ?ws" by (simp add: d1_def)
    show "distinct (map word ?ws)" using srt dist by (rule distinct_kept)
    show "length ?ws \<le> cap" using length_kept [OF srt, of t tlab "words_m d"] len by simp
    show "size_m d1 = int 0" by (simp add: d1_def)
    show "index_upto cap ?ws 0 (word2int_m d1)" by (simp add: index_upto_def d1_def)
    show "card (occupied cap d1) \<le> 0" by (simp add: occupied_def d1_def)
  qed
  with th ret have i: "index_upto cap ?ws (length ?ws) (word2int_m d')"
    and c: "card (occupied cap d') \<le> length ?ws" by auto
  from threshold_spec [OF srt cap len, of t tlab] ret
  have f: "words_m d' = ?ws" "size_m d' = int (length (words_m d'))" by simp_all
  from i c f distinct_kept [OF srt dist, of t tlab] show ?thesis
    by (simp add: store_ok_def index_consistent_upto)
qed

text \<open>A list sorted by the comparator has its words first and its counts descending.\<close>

lemma words_first:
  assumes "sorted_wrt (\<lambda>a b. \<not> entry_less b a) ws" and "i < length ws"
  shows "(i < length (filter (\<lambda>e. type e = entry_word) ws)) = (type (ws ! i) = entry_word)"
  using assms
proof (induction ws arbitrary: i)
  case Nil
  then show ?case by simp
next
  case (Cons x xs)
  show ?case
  proof (cases "type x")
    case entry_word
    with Cons show ?thesis by (cases i) simp_all
  next
    case entry_label
    have "type y = entry_label" if "y \<in> set xs" for y
    proof -
      from Cons.prems(1) that have "\<not> entry_less y x" by simp
      with entry_label show ?thesis
        by (cases "type y") (simp_all add: entry_less_iff type_rank_def)
    qed
    then have all: "\<forall>y\<in>set (x # xs). type y = entry_label" using entry_label by simp
    then have "filter (\<lambda>e. type e = entry_word) (x # xs) = []"
      by (simp add: filter_empty_conv)
    moreover have "type ((x # xs) ! i) = entry_label"
      using all Cons.prems(2) nth_mem by blast
    ultimately show ?thesis by simp
  qed
qed

lemma counts_descend:
  assumes "sorted_wrt (\<lambda>a b. \<not> entry_less b a) ws" and "i < j" and "j < length ws"
    and "type (ws ! i) = type (ws ! j)"
  shows "count (ws ! j) \<le> count (ws ! i)"
proof -
  from assms(1-3) have "\<not> entry_less (ws ! j) (ws ! i)"
    by (simp add: sorted_wrt_iff_nth_less)
  with assms(4) show ?thesis by (simp add: entry_less_iff)
qed

lemma sorted_kept:
  assumes "std_sort_contract srt"
  shows "sorted_wrt (\<lambda>a b. \<not> entry_less b a) (kept srt t tlab ws)"
  using assms by (simp add: kept_def std_sort_contract_def sorted_wrt_filter)

lemma label_count:
  "length (filter (\<lambda>e. type e = entry_word) ws) + length (filter (\<lambda>e. type e = entry_label) ws)
     = length ws"
proof (induction ws)
  case Nil
  then show ?case by simp
next
  case (Cons x xs)
  then show ?case by (cases "type x") simp_all
qed

lemma threshold_invariant:
  assumes srt: "std_sort_contract srt" and cap: "0 < cap" and len: "length (words_m d) \<le> cap"
  shows "\<exists>d'. threshold srt cap t tlab d = Some d' \<and> grouped d' \<and> count_descending d' \<and>
           sizes_add_up d'"
proof -
  from threshold_spec [OF srt cap len, of t tlab]
  obtain d' where d': "threshold srt cap t tlab d = Some d'"
    "words_m d' = kept srt t tlab (words_m d)"
    "size_m d' = int (length (words_m d'))"
    "nwords_m d' = int (length (filter (\<lambda>e. type e = entry_word) (words_m d')))"
    "nlabels_m d' = int (length (filter (\<lambda>e. type e = entry_label) (words_m d')))"
    by blast
  have s: "sorted_wrt (\<lambda>a b. \<not> entry_less b a) (words_m d')"
    unfolding d'(2) using srt by (rule sorted_kept)
  have "grouped d'"
    unfolding grouped_def d'(4) using words_first [OF s] by simp
  moreover have "count_descending d'"
    unfolding count_descending_def using counts_descend [OF s] by blast
  moreover have "sizes_add_up d'"
    unfolding sizes_add_up_def d'(3,4,5) using label_count [of "words_m d'"] by simp
  ultimately show ?thesis using d'(1) by blast
qed

lemma hash_a: "hash ''a'' = 3826002220"
  by (simp add: hash_def hash_loop.simps uint32_t_def schar_def)

lemma find_empty: "0 < cap \<Longrightarrow> find cap (Dictionary a) w = Some (unat (hash w) mod cap)"
  by (simp add: find_def find_loop.simps Dictionary_def)

lemma add_a: "add 30000000 (Dictionary args0) ''a'' = Some dict_a"
proof -
  have "find 30000000 (Dictionary args0) ''a'' = Some 16002220"
    by (simp add: find_empty hash_a)
  then show ?thesis
    unfolding add_def by (simp add: Dictionary_def dict_a_def Let_def) (simp add: args0_def)
qed

lemma dict_a_ok: "store_ok 30000000 dict_a"
proof -
  have "\<exists>d'. add 30000000 (Dictionary args0) ''a'' = Some d' \<and> store_ok 30000000 d' \<and>
           words_m d' = words_m (Dictionary args0) @ [new_entry (args_m (Dictionary args0)) ''a''] \<and>
           ntokens_m d' = ntokens_m (Dictionary args0) + 1 \<and> args_m d' = args_m (Dictionary args0)"
  proof (rule add_absent)
    show "store_ok 30000000 (Dictionary args0)" by (rule Dictionary_ok)
  qed (simp_all add: Dictionary_def)
  then show ?thesis by (simp add: add_a)
qed

text \<open>
  Claim C9.  With an index that agrees with the store and has an empty slot,
  \<^verbatim>\<open>getId(w)\<close> returns; it returns -1 exactly when no entry has the word \<open>w\<close>, and
  otherwise a position below \<^verbatim>\<open>size_\<close> whose entry has the word \<open>w\<close>.
\<close>

theorem getId_correct:
  assumes "0 < cap" and "index_consistent cap d" and "has_empty_slot cap d"
  shows "\<exists>p. getId cap d w = Some p \<and>
           (p = - 1 \<longleftrightarrow> w \<notin> word ` set (words_m d)) \<and>
           (p \<noteq> - 1 \<longrightarrow> 0 \<le> p \<and> p < size_m d \<and> word (words_m d ! nat p) = w)"
proof (cases "w \<in> word ` set (words_m d)")
  case True
  from find_present [OF assms True] show ?thesis
    using True by (auto simp: getId_def)
next
  case False
  from find_absent_consistent [OF assms False] show ?thesis
    using False by (auto simp: getId_def)
qed

theorem getId_correct_witness:
  "getId 30000000 dict_a ''a'' = Some 0 \<and> getId 30000000 dict_a ''b'' = Some (- 1)"
proof -
  have c: "(0::nat) < 30000000" by simp
  have i: "index_consistent 30000000 dict_a"
    using dict_a_ok by (simp add: store_ok_def)
  have "card (occupied 30000000 dict_a) < 30000000"
    using dict_a_ok by (simp add: store_ok_def dict_a_def)
  then have e: "has_empty_slot 30000000 dict_a" by (rule empty_slot_card)
  from getId_correct [OF c i e, of "''a''"] getId_correct [OF c i e, of "''b''"]
  show ?thesis by (auto simp: dict_a_def)
qed

text \<open>
  Claim C4.  From the empty dictionary, \<^verbatim>\<open>add\<close> on the tokens a, a, b and the end
  marker, then \<^verbatim>\<open>threshold(1, 1)\<close>: the store holds a with count 2, b with count 1 and
  the end marker with count 1, all three as words; \<^verbatim>\<open>ntokens_\<close> is 4, \<^verbatim>\<open>nwords_\<close> is 3
  and \<^verbatim>\<open>nlabels_\<close> is 0.  This holds for every sorting routine with the contract of
  \<^verbatim>\<open>std::sort\<close>, every table of at least three slots, and every label marker that
  is not a prefix of one of the three words.
\<close>

theorem ingest_scenario:
  assumes srt: "std_sort_contract srt" and cap: "3 \<le> cap"
    and lbl: "\<not> prefix (label a) ''a''" "\<not> prefix (label a) ''b''" "\<not> prefix (label a) EOS"
  shows "\<exists>d1 d2. add_tokens cap (Dictionary a) [''a'', ''a'', ''b'', EOS] = Some d1 \<and>
     threshold srt cap 1 1 d1 = Some d2 \<and>
     mset (map (\<lambda>e. (word e, count e, type e)) (words_m d2)) =
       {#(''a'', 2, entry_word), (''b'', 1, entry_word), (EOS, 1, entry_word)#} \<and>
     ntokens_m d2 = 4 \<and> nwords_m d2 = 3 \<and> nlabels_m d2 = 0"
proof -
  have c0: "0 < cap" using cap by simp
  let ?d0 = "Dictionary a"
  have d0: "store_ok cap ?d0" "words_m ?d0 = []" "ntokens_m ?d0 = 0" "args_m ?d0 = a"
    by (simp_all add: Dictionary_ok) (simp_all add: Dictionary_def)
  from add_absent [OF c0 d0(1), of "''a''"] d0 cap
  obtain d1 where d1: "add cap ?d0 ''a'' = Some d1" "store_ok cap d1"
    "words_m d1 = [new_entry a ''a'']" "ntokens_m d1 = 1" "args_m d1 = a"
    by auto
  from add_present [OF c0 d1(2), of "''a''"] d1 cap
  obtain d2 where d2: "add cap d1 ''a'' = Some d2" "store_ok cap d2"
    "words_m d2 = [bump ''a'' (new_entry a ''a'')]" "ntokens_m d2 = 2" "args_m d2 = a"
    by (auto simp: word_new_entry)
  from add_absent [OF c0 d2(2), of "''b''"] d2 cap
  obtain d3 where d3: "add cap d2 ''b'' = Some d3" "store_ok cap d3"
    "words_m d3 = [bump ''a'' (new_entry a ''a''), new_entry a ''b'']" "ntokens_m d3 = 3"
    "args_m d3 = a"
    by (auto simp: word_new_entry word_bump)
  from add_absent [OF c0 d3(2), of EOS] d3 cap
  obtain d4 where d4: "add cap d3 EOS = Some d4" "store_ok cap d4"
    "words_m d4 = [bump ''a'' (new_entry a ''a''), new_entry a ''b'', new_entry a EOS]"
    "ntokens_m d4 = 4" "args_m d4 = a"
    by (auto simp: word_new_entry word_bump EOS_def)
  let ?ws = "[\<lparr>word = ''a'', count = 2, type = entry_word, subwords = []\<rparr>,
              \<lparr>word = ''b'', count = 1, type = entry_word, subwords = []\<rparr>,
              \<lparr>word = EOS, count = 1, type = entry_word, subwords = []\<rparr>]"
  have ws: "words_m d4 = ?ws"
    using lbl by (simp add: d4(3) bump_def new_entry_def)
  have ing: "add_tokens cap ?d0 [''a'', ''a'', ''b'', EOS] = Some d4"
    by (simp add: d1(1) d2(1) d3(1) d4(1))
  from threshold_spec [OF srt c0, of d4 1 1] cap ws
  obtain d5 where d5: "threshold srt cap 1 1 d4 = Some d5"
    "words_m d5 = kept srt 1 1 ?ws"
    "nwords_m d5 = int (length (filter (\<lambda>e. type e = entry_word) (words_m d5)))"
    "nlabels_m d5 = int (length (filter (\<lambda>e. type e = entry_label) (words_m d5)))"
    "ntokens_m d5 = ntokens_m d4"
    by auto
  from srt have "mset (srt ?ws) = mset ?ws" by (simp add: std_sort_contract_def)
  then have "mset (kept srt 1 1 ?ws) = filter_mset (\<lambda>e. \<not> below_cutoff 1 1 e) (mset ?ws)"
    by (simp add: kept_def del: mset.simps)
  then have m: "mset (words_m d5) = mset ?ws"
    by (simp add: d5(2) below_cutoff_def)
  have "mset (map (\<lambda>e. (word e, count e, type e)) (words_m d5)) =
      image_mset (\<lambda>e. (word e, count e, type e)) (mset ?ws)"
    using m by (metis mset_map)
  then have triples: "mset (map (\<lambda>e. (word e, count e, type e)) (words_m d5)) =
       {#(''a'', 2, entry_word), (''b'', 1, entry_word), (EOS, 1, entry_word)#}"
    by simp
  have cnt: "length (filter P (words_m d5)) = size (filter_mset P (mset ?ws))" for P
    using m by (metis mset_filter size_mset)
  have "nwords_m d5 = 3" "nlabels_m d5 = 0"
    by (simp_all add: d5(3,4) cnt)
  with ing d5(1,5) d4(4) triples show ?thesis
    by (intro exI [of _ d4] exI [of _ d5]) simp
qed

theorem ingest_scenario_witness:
  "\<exists>d1 d2. add_tokens 30000000 (Dictionary args0) [''a'', ''a'', ''b'', EOS] = Some d1 \<and>
     threshold insertion_sort 30000000 1 1 d1 = Some d2 \<and>
     mset (map (\<lambda>e. (word e, count e, type e)) (words_m d2)) =
       {#(''a'', 2, entry_word), (''b'', 1, entry_word), (EOS, 1, entry_word)#} \<and>
     ntokens_m d2 = 4 \<and> nwords_m d2 = 3 \<and> nlabels_m d2 = 0"
  by (rule ingest_scenario [OF insertion_sort_contract]) (simp_all add: args0_def EOS_def)
















lemma ahead_Cons:
  assumes "ahead s (c # xs)"
  shows "pos s < length (buf s)" "buf s ! pos s = c" "ahead (advance s 1) xs"
proof -
  from assms have d: "drop (pos s) (buf s) = c # xs" by (simp add: ahead_def)
  then have "drop (pos s) (buf s) \<noteq> []" by simp
  then show lt: "pos s < length (buf s)" by simp
  with d show "buf s ! pos s = c" "ahead (advance s 1) xs"
    by (simp_all add: Cons_nth_drop_Suc [symmetric] ahead_def advance_def)
qed

lemma advance_advance: "advance (advance s m) n = advance s (m + n)"
  by (simp add: advance_def add.assoc)

lemma advance_0: "advance s 0 = s"
  by (simp add: advance_def)

lemma delimiter_not_FF: "is_delimiter c \<Longrightarrow> c \<noteq> CHR 0xFF"
  by (auto simp: is_delimiter_def)

lemma skip_blanks:
  "blanks ds \<Longrightarrow> ahead s (ds @ rest) \<Longrightarrow>
   readWord_loop s [] = readWord_loop (advance s (length ds)) []"
proof (induction ds arbitrary: s)
  case Nil
  then show ?case by (simp add: advance_0)
next
  case (Cons d ds)
  from Cons.prems(2) have a: "ahead s (d # ds @ rest)" by simp
  note st = ahead_Cons [OF a]
  from Cons.prems(1) have d: "is_delimiter d" "d \<noteq> CHR 0x0A" and b: "blanks ds"
    by (simp_all add: blanks_def)
  have "readWord_loop s [] = readWord_loop (advance s 1) []"
    using st(1,2) d delimiter_not_FF [OF d(1)]
    by (subst readWord_loop.simps) (simp add: Let_def advance_def)
  also have "\<dots> = readWord_loop (advance (advance s 1) (length ds)) []"
    using b st(3) by (rule Cons.IH)
  finally show ?case by (simp add: advance_advance)
qed

lemma read_token:
  "\<forall>c\<in>set tok. \<not> is_delimiter c \<and> c \<noteq> CHR 0xFF \<Longrightarrow> ahead s (tok @ rest) \<Longrightarrow>
   readWord_loop s w = readWord_loop (advance s (length tok)) (w @ tok)"
proof (induction tok arbitrary: s w)
  case Nil
  then show ?case by (simp add: advance_0)
next
  case (Cons c tok)
  from Cons.prems(2) have a: "ahead s (c # tok @ rest)" by simp
  note st = ahead_Cons [OF a]
  from Cons.prems(1) have c: "\<not> is_delimiter c" "c \<noteq> CHR 0xFF"
    and t: "\<forall>c\<in>set tok. \<not> is_delimiter c \<and> c \<noteq> CHR 0xFF"
    by simp_all
  have "readWord_loop s w = readWord_loop (advance s 1) (w @ [c])"
    using st(1,2) c
    by (subst readWord_loop.simps) (simp add: Let_def advance_def)
  also have "\<dots> = readWord_loop (advance (advance s 1) (length tok)) ((w @ [c]) @ tok)"
    using t st(3) by (rule Cons.IH)
  finally show ?case by (simp add: advance_advance)
qed

lemma at_newline:
  assumes "ahead s (CHR 0x0A # rest)"
  shows "readWord_loop s w = (if w = [] then (True, EOS, advance s 1) else (True, w, s))"
proof -
  note st = ahead_Cons [OF assms]
  have "is_delimiter (CHR 0x0A)" by (simp add: is_delimiter_def)
  with st(1,2) show ?thesis
    by (subst readWord_loop.simps) (simp add: Let_def advance_def)
qed

lemma at_end:
  assumes "ahead s []"
  shows "readWord_loop s w = (w \<noteq> [], w, s\<lparr>eofbit := True\<rparr>)"
proof -
  from assms have "pos s = length (buf s)" by (simp add: ahead_def)
  then show ?thesis
    by (subst readWord_loop.simps) (simp add: in_get_def)
qed

lemma readWord_loop_nonempty:
  "readWord_loop s w = (True, w', s') \<Longrightarrow> w' \<noteq> []"
proof (induction s w rule: readWord_loop.induct)
  case (1 s w)
  let ?c = "buf s ! pos s"
  let ?s1 = "s\<lparr>pos := pos s + 1\<rparr>"
  show ?case
  proof (cases "pos s < length (buf s) \<and> ?c \<noteq> CHR 0xFF")
    case False
    with "1.prems" show ?thesis
      by (subst (asm) readWord_loop.simps) (auto simp: Let_def)
  next
    case True
    show ?thesis
    proof (cases "is_delimiter ?c")
      case d: True
      show ?thesis
      proof (cases "w = []")
        case e: True
        show ?thesis
        proof (cases "?c = CHR 0x0A")
          case True
          with \<open>pos s < length (buf s) \<and> ?c \<noteq> CHR 0xFF\<close> d e "1.prems" show ?thesis
            by (subst (asm) readWord_loop.simps) (auto simp: Let_def EOS_def)
        next
          case False
          with True d e "1.prems" have "readWord_loop ?s1 w = (True, w', s')"
            by (subst (asm) readWord_loop.simps) (simp add: Let_def)
          with True d e False show ?thesis
            by (intro "1.IH"(1) [of ?c ?s1]) simp_all
        qed
      next
        case False
        with True d "1.prems" show ?thesis
          by (subst (asm) readWord_loop.simps) (auto simp: Let_def)
      qed
    next
      case False
      with True "1.prems" have "readWord_loop ?s1 (w @ [?c]) = (True, w', s')"
        by (subst (asm) readWord_loop.simps) (simp add: Let_def)
      with True False show ?thesis
        by (intro "1.IH"(2) [of ?c ?s1]) simp_all
    qed
  qed
qed

lemma ahead_advance:
  assumes "ahead s (xs @ ys)"
  shows "ahead (advance s (length xs)) ys"
proof -
  from assms have d: "drop (pos s) (buf s) = xs @ ys" and le: "pos s \<le> length (buf s)"
    by (simp_all add: ahead_def)
  have "drop (length xs) (drop (pos s) (buf s)) = ys" by (simp add: d)
  then have "drop (pos s + length xs) (buf s) = ys" by (simp add: add.commute)
  moreover have "pos s + length xs \<le> length (buf s)"
    using arg_cong [OF d, of length] le by simp
  ultimately show ?thesis by (simp add: ahead_def advance_def)
qed


text \<open>
  The protocol of \<^verbatim>\<open>readWord\<close> on a stream \<open>s\<close>, for tokens that do not hold the byte
  \<^verbatim>\<open>0xFF\<close> (\<open>token_bytes\<close>).  A token it reports is never empty.
  After any run of delimiters without a newline: a newline next yields the end marker
  and moves past the newline; a token followed by a newline yields the token and leaves
  the stream at the newline, so that the next call yields the end marker; a token that
  ends the stream is returned, and the call after it reports no token; the end of the
  stream reports no token.
\<close>

lemma readWord_protocol:
  "(readWord s = (True, w, s') \<longrightarrow> w \<noteq> []) \<and>
   (blanks ds \<and> ahead s (ds @ CHR 0x0A # rest) \<longrightarrow>
      readWord s = (True, EOS, advance s (length ds + 1))) \<and>
   (blanks ds \<and> token_bytes tok \<and> ahead s (ds @ tok @ CHR 0x0A # rest) \<longrightarrow>
      readWord s = (True, tok, advance s (length ds + length tok)) \<and>
      readWord (advance s (length ds + length tok)) =
        (True, EOS, advance s (length ds + length tok + 1))) \<and>
   (blanks ds \<and> token_bytes tok \<and> ahead s (ds @ tok) \<longrightarrow>
      readWord s = (True, tok, (advance s (length ds + length tok))\<lparr>eofbit := True\<rparr>) \<and>
      readWord ((advance s (length ds + length tok))\<lparr>eofbit := True\<rparr>) =
        (False, [], (advance s (length ds + length tok))\<lparr>eofbit := True\<rparr>)) \<and>
   (blanks ds \<and> ahead s ds \<longrightarrow>
      readWord s = (False, [], (advance s (length ds))\<lparr>eofbit := True\<rparr>))"
proof (intro conjI impI; (elim conjE)?)
  assume "readWord s = (True, w, s')"
  then show "w \<noteq> []" unfolding readWord_def by (rule readWord_loop_nonempty)
next
  assume b: "blanks ds" and a: "ahead s (ds @ CHR 0x0A # rest)"
  have "readWord_loop s [] = readWord_loop (advance s (length ds)) []"
    using b a by (rule skip_blanks)
  also have "\<dots> = (True, EOS, advance (advance s (length ds)) 1)"
    using at_newline [OF ahead_advance [OF a], of "[]"] by simp
  finally show "readWord s = (True, EOS, advance s (length ds + 1))"
    by (simp add: readWord_def advance_advance)
next
  assume b: "blanks ds" and t: "token_bytes tok" and a: "ahead s (ds @ tok @ CHR 0x0A # rest)"
  let ?s1 = "advance s (length ds)"
  let ?s2 = "advance s (length ds + length tok)"
  have a1: "ahead ?s1 (tok @ CHR 0x0A # rest)" using a by (rule ahead_advance)
  then have a2: "ahead ?s2 (CHR 0x0A # rest)"
    using ahead_advance [of ?s1 tok] by (simp add: advance_advance)
  have "readWord_loop s [] = readWord_loop ?s1 []"
    using b a by (rule skip_blanks)
  also have "\<dots> = readWord_loop ?s2 ([] @ tok)"
    using read_token [of tok ?s1 "CHR 0x0A # rest" "[]"] t a1
    by (simp add: token_bytes_def advance_advance)
  also have "\<dots> = (True, tok, ?s2)"
    using at_newline [OF a2, of tok] t by (simp add: token_bytes_def)
  finally show "readWord s = (True, tok, ?s2)" by (simp add: readWord_def)
  show "readWord ?s2 = (True, EOS, advance s (length ds + length tok + 1))"
    using at_newline [OF a2, of "[]"] by (simp add: readWord_def advance_advance)
next
  assume b: "blanks ds" and t: "token_bytes tok" and a: "ahead s (ds @ tok)"
  let ?s1 = "advance s (length ds)"
  let ?s2 = "advance s (length ds + length tok)"
  let ?s3 = "?s2\<lparr>eofbit := True\<rparr>"
  have a1: "ahead ?s1 (tok @ [])" using a by (simp add: ahead_advance)
  then have a2: "ahead ?s2 []"
    using ahead_advance [of ?s1 tok "[]"] by (simp add: advance_advance)
  then have a3: "ahead ?s3 []" by (simp add: ahead_def)
  have "readWord_loop s [] = readWord_loop ?s1 []"
    using b a by (rule skip_blanks)
  also have "\<dots> = readWord_loop ?s2 ([] @ tok)"
    using read_token [of tok ?s1 "[]" "[]"] t a1
    by (simp add: token_bytes_def advance_advance)
  also have "\<dots> = (True, tok, ?s3)"
    using at_end [OF a2, of tok] t by (simp add: token_bytes_def)
  finally show "readWord s = (True, tok, ?s3)" by (simp add: readWord_def)
  show "readWord ?s3 = (False, [], ?s3)"
    using at_end [OF a3, of "[]"] by (simp add: readWord_def)
next
  assume b: "blanks ds" and a: "ahead s ds"
  have a1: "ahead (advance s (length ds)) []"
    using ahead_advance [of s ds "[]"] a by simp
  have "readWord_loop s [] = readWord_loop (advance s (length ds)) []"
    using b a skip_blanks [of ds s "[]"] by simp
  also have "\<dots> = (False, [], (advance s (length ds))\<lparr>eofbit := True\<rparr>)"
    using at_end [OF a1, of "[]"] by simp
  finally show "readWord s = (False, [], (advance s (length ds))\<lparr>eofbit := True\<rparr>)"
    by (simp add: readWord_def)
qed

lemma readWord_protocol_example:
  "readWord \<lparr>buf = ''  cd'' @ [CHR 0x0A] @ '' e'', pos = 0, eofbit = False\<rparr> =
     (True, ''cd'', \<lparr>buf = ''  cd'' @ [CHR 0x0A] @ '' e'', pos = 4, eofbit = False\<rparr>) \<and>
   readWord \<lparr>buf = ''  cd'' @ [CHR 0x0A] @ '' e'', pos = 4, eofbit = False\<rparr> =
     (True, EOS, \<lparr>buf = ''  cd'' @ [CHR 0x0A] @ '' e'', pos = 5, eofbit = False\<rparr>) \<and>
   readWord \<lparr>buf = ''  cd'' @ [CHR 0x0A] @ '' e'', pos = 5, eofbit = False\<rparr> =
     (True, ''e'', \<lparr>buf = ''  cd'' @ [CHR 0x0A] @ '' e'', pos = 7, eofbit = True\<rparr>) \<and>
   readWord \<lparr>buf = ''  cd'' @ [CHR 0x0A] @ '' e'', pos = 7, eofbit = True\<rparr> =
     (False, [], \<lparr>buf = ''  cd'' @ [CHR 0x0A] @ '' e'', pos = 7, eofbit = True\<rparr>)"
proof -
  let ?b = "''  cd'' @ [CHR 0x0A] @ '' e''"
  have bl: "blanks ''  ''" "blanks '' ''" "blanks []" by (simp_all add: blanks_def is_delimiter_def)
  have tk: "token_bytes ''cd''" "token_bytes ''e''" by (simp_all add: token_bytes_def is_delimiter_def)
  note p0 = readWord_protocol [of "\<lparr>buf = ?b, pos = 0, eofbit = False\<rparr>" "[]" undefined "''  ''" "'' e''" "''cd''"]
  note p5 = readWord_protocol [of "\<lparr>buf = ?b, pos = 5, eofbit = False\<rparr>" "[]" undefined "'' ''" "[]" "''e''"]
  from p0 bl tk have
    "readWord \<lparr>buf = ?b, pos = 0, eofbit = False\<rparr> = (True, ''cd'', \<lparr>buf = ?b, pos = 4, eofbit = False\<rparr>)"
    "readWord \<lparr>buf = ?b, pos = 4, eofbit = False\<rparr> = (True, EOS, \<lparr>buf = ?b, pos = 5, eofbit = False\<rparr>)"
    by (simp_all add: ahead_def advance_def eval_nat_numeral)
  moreover from p5 bl tk have
    "readWord \<lparr>buf = ?b, pos = 5, eofbit = False\<rparr> = (True, ''e'', \<lparr>buf = ?b, pos = 7, eofbit = True\<rparr>)"
    "readWord \<lparr>buf = ?b, pos = 7, eofbit = True\<rparr> = (False, [], \<lparr>buf = ?b, pos = 7, eofbit = True\<rparr>)"
    by (simp_all add: ahead_def advance_def eval_nat_numeral)
  ultimately show ?thesis by simp
qed

text \<open>
  Claim C6 fails on the code at a token that holds the byte \<^verbatim>\<open>0xFF\<close>.  \<^verbatim>\<open>readWord\<close> stores
  the result of \<^verbatim>\<open>sbumpc()\<close> in a \<^verbatim>\<open>char\<close> before it compares it with \<^verbatim>\<open>EOF\<close>, so that
  byte ends the loop as the end of the stream would, and \<^verbatim>\<open>in.get()\<close>, which the source
  comments with \<^verbatim>\<open>trigger eofbit\<close>, reads the byte that follows.  On the stream of the
  bytes a, \<^verbatim>\<open>0xFF\<close>, newline, b the first call returns the pending token a with the
  stream after the newline, which is not pushed back, and the next call returns b and
  not the end marker.
\<close>

theorem readWord_byte_FF:
  "readWord \<lparr>buf = [CHR ''a'', CHR 0xFF, CHR 0x0A, CHR ''b''], pos = 0, eofbit = False\<rparr> =
     (True, ''a'', \<lparr>buf = [CHR ''a'', CHR 0xFF, CHR 0x0A, CHR ''b''], pos = 3, eofbit = False\<rparr>) \<and>
   readWord \<lparr>buf = [CHR ''a'', CHR 0xFF, CHR 0x0A, CHR ''b''], pos = 3, eofbit = False\<rparr> =
     (True, ''b'', \<lparr>buf = [CHR ''a'', CHR 0xFF, CHR 0x0A, CHR ''b''], pos = 4, eofbit = True\<rparr>)"
  by (simp add: readWord_def readWord_loop.simps in_get_def is_delimiter_def Let_def)

lemma lookup_None: "lookup d w = None \<longleftrightarrow> \<not> in_vocabulary d w"
proof -
  have "map fst (zip (map word (words_m d)) [0..<length (words_m d)]) = map word (words_m d)"
    by (rule map_fst_zip) simp
  then have "fst ` set (zip (map word (words_m d)) [0..<length (words_m d)]) =
      word ` set (words_m d)"
    by (metis set_map)
  then show ?thesis
    by (simp add: lookup_def in_vocabulary_def map_of_eq_None_iff)
qed

lemma lookup_Some:
  assumes "lookup d w = Some i"
  shows "i < length (words_m d)" "word (words_m d ! i) = w"
proof -
  from assms have "(w, i) \<in> set (zip (map word (words_m d)) [0..<length (words_m d)])"
    unfolding lookup_def by (rule map_of_SomeD)
  then obtain k where k: "k < length (words_m d)" "map word (words_m d) ! k = w"
    "[0..<length (words_m d)] ! k = i"
    by (auto simp: in_set_zip)
  then show "i < length (words_m d)" "word (words_m d ! i) = w" by auto
qed

lemma find_lookup:
  assumes cap: "0 < cap" and ok: "store_ok cap d" and room: "length (words_m d) < cap"
  shows "\<exists>h. find cap d w = Some h \<and>
           word2int_m d h = (case lookup d w of None \<Rightarrow> - 1 | Some i \<Rightarrow> int i)"
proof -
  from ok have ic: "index_consistent cap d" and dist: "distinct (map word (words_m d))"
    and card: "card (occupied cap d) \<le> length (words_m d)"
    by (auto simp: store_ok_def)
  from card room have empty: "has_empty_slot cap d"
    by (intro empty_slot_card) simp
  from ic have sz: "size_m d = int (length (words_m d))" by (simp add: index_consistent_def)
  show ?thesis
  proof (cases "lookup d w")
    case None
    then have "w \<notin> word ` set (words_m d)" by (simp add: lookup_None in_vocabulary_def)
    from find_absent_consistent [OF cap ic empty this] None show ?thesis by auto
  next
    case (Some i)
    note i = lookup_Some [OF Some]
    then have "w \<in> word ` set (words_m d)" by (metis imageI nth_mem)
    from find_present [OF cap ic empty this]
    obtain h where h: "find cap d w = Some h" "0 \<le> word2int_m d h"
      "word2int_m d h < size_m d" "word (words_m d ! nat (word2int_m d h)) = w"
      by blast
    define p where "p = nat (word2int_m d h)"
    have p: "p < length (words_m d)" "word (words_m d ! p) = w"
      using h sz by (simp_all add: p_def)
    with i have "map word (words_m d) ! p = map word (words_m d) ! i" by simp
    with dist p(1) i(1) have "p = i"
      using nth_eq_iff_index_eq [of "map word (words_m d)" p i] by simp
    with h(1,2) Some show ?thesis by (simp add: p_def)
  qed
qed

lemma getLine_ids_step:
  assumes cap: "0 < cap" and ok: "store_ok cap d" and room: "length (words_m d) < cap"
    and gr: "grouped d"
    and pd: "model (args_m d) = sup \<or> nwords_m d \<le> int (length (pdiscard_m d))"
  shows "getLine_ids_loop cap d (tok # toks) st = getLine_ids_loop cap d toks (convert_token d tok st)"
proof -
  obtain n ws hs ls g where st: "st = (n, ws, hs, ls, g)" by (cases st)
  from find_lookup [OF cap ok room, of tok]
  obtain h where h: "find cap d tok = Some h"
    "word2int_m d h = (case lookup d tok of None \<Rightarrow> - 1 | Some i \<Rightarrow> int i)" by blast
  from ok have sz: "size_m d = int (length (words_m d))"
    by (simp add: store_ok_def index_consistent_def)
  show ?thesis
  proof (cases "lookup d tok")
    case None
    with h show ?thesis by (simp add: st)
  next
    case (Some i)
    note i = lookup_Some [OF Some]
    have ty: "getType d (int i) = Some (type (words_m d ! i))"
      using i(1) sz by (simp add: getType_def)
    show ?thesis
    proof (cases "type (words_m d ! i)")
      case entry_word
      with gr i(1) have lt: "int i < nwords_m d" by (simp add: grouped_def)
      have "discard d (int i) r = Some (subsampled d i r)" for r
        using lt pd by (auto simp: discard_def subsampled_def)
      with h Some ty entry_word show ?thesis by (simp add: st)
    next
      case entry_label
      with h Some ty show ?thesis by (simp add: st)
    qed
  qed
qed

lemma getLine_ids_loop_fold:
  assumes cap: "0 < cap" and ok: "store_ok cap d" and room: "length (words_m d) < cap"
    and gr: "grouped d"
    and pd: "model (args_m d) = sup \<or> nwords_m d \<le> int (length (pdiscard_m d))"
  shows "getLine_ids_loop cap d toks st = Some (fold (convert_token d) toks st)"
proof (induction toks arbitrary: st)
  case Nil
  then show ?case by simp
next
  case (Cons tok toks)
  show ?case
    unfolding getLine_ids_step [OF assms] by (simp add: Cons.IH)
qed

lemma convert_token_count:
  "fst (convert_token d tok st) = fst st + (if in_vocabulary d tok then 1 else 0)"
proof -
  obtain n ws hs ls g where st: "st = (n, ws, hs, ls, g)" by (cases st)
  show ?thesis
  proof (cases "lookup d tok")
    case None
    then show ?thesis by (simp add: st lookup_None [symmetric])
  next
    case (Some i)
    then have "in_vocabulary d tok" using lookup_None [of d tok] by simp
    with Some show ?thesis by (simp add: st split: entry_type.splits)
  qed
qed

lemma fold_convert_count:
  "fst (fold (convert_token d) toks st) = fst st + int (length (filter (in_vocabulary d) toks))"
  by (induction toks arbitrary: st) (simp_all add: convert_token_count)

lemma hashes: "hash ''a'' = 3826002220" "hash ''b'' = 3876335077" "hash ''</s>'' = 3617362777"
  "hash ''__label__x'' = 215146739" "hash ''zz'' = 1466432373"
  by (simp_all add: hash_def hash_loop.simps uint32_t_def schar_def)

lemma add_tokens_raw:
  "add_tokens 30000000 (Dictionary args0) [''__label__x'', ''a'', ''b'', ''</s>''] = Some dict_raw"
  by (simp add: add_def find_def find_loop.simps hashes Dictionary_def Let_def args0_def dict_raw_def)

lemma threshold_raw: "threshold insertion_sort 30000000 1 1 dict_raw = Some dict0"
  by (simp add: threshold_def insertion_sort_def entry_less_def type_rank_def below_cutoff_def
      dict_raw_def dict0_def index_entry_def find_def find_loop.simps hashes Let_def)

lemma dict0_ok: "store_ok 30000000 dict0"
  by (rule threshold_store_ok [OF insertion_sort_contract _ _ _ threshold_raw])
     (simp_all add: dict_raw_def)

lemma dict0_grouped: "grouped dict0"
  using threshold_invariant [OF insertion_sort_contract, of 30000000 dict_raw 1 1]
  by (simp add: threshold_raw) (simp add: dict_raw_def)


lemma store_ok_cong:
  "words_m d' = words_m d \<Longrightarrow> word2int_m d' = word2int_m d \<Longrightarrow> size_m d' = size_m d \<Longrightarrow>
   store_ok cap d' = store_ok cap d"
  by (simp add: store_ok_def index_consistent_def occupied_def)

lemma grouped_cong:
  "words_m d' = words_m d \<Longrightarrow> nwords_m d' = nwords_m d \<Longrightarrow> grouped d' = grouped d"
  by (simp add: grouped_def)

lemma dict_sg_ok: "store_ok 30000000 dict_sg" "grouped dict_sg"
proof -
  have "store_ok 30000000 dict_sg = store_ok 30000000 dict0"
    by (rule store_ok_cong) (simp_all add: dict_sg_def)
  then show "store_ok 30000000 dict_sg" using dict0_ok by simp
  have "grouped dict_sg = grouped dict0"
    by (rule grouped_cong) (simp_all add: dict_sg_def)
  then show "grouped dict_sg" using dict0_grouped by simp
qed

text \<open>
  Claim C10.  On a dictionary whose index agrees with its store and whose words come
  before its labels, \<^verbatim>\<open>getLine(in, words, word_hashes, labels, rng)\<close> returns, and what
  it returns is the token-by-token conversion of the line read.  Its count is the number
  of tokens of the line that have an entry: a token without an entry only adds its hash
  to the hash list, and a word that subsampling discards is counted all the same.
\<close>

theorem getLine_ids_count:
  assumes "0 < cap" and "store_ok cap d" and "length (words_m d) < cap" and "grouped d"
    and "model (args_m d) = sup \<or> nwords_m d \<le> int (length (pdiscard_m d))"
  shows "\<exists>st. getLine_ids cap mls d s g = Some (st, snd (getLine_tokens mls (args_m d) s)) \<and>
           st = fold (convert_token d) (fst (getLine_tokens mls (args_m d) s)) (0, [], [], [], g) \<and>
           fst st = int (length (filter (in_vocabulary d) (fst (getLine_tokens mls (args_m d) s))))"
proof -
  obtain toks s' where t: "getLine_tokens mls (args_m d) s = (toks, s')"
    by (cases "getLine_tokens mls (args_m d) s")
  have "getLine_ids cap mls d s g = Some (fold (convert_token d) toks (0, [], [], [], g), s')"
    by (simp add: getLine_ids_def t getLine_ids_loop_fold [OF assms])
  moreover have "fst (fold (convert_token d) toks (0, [], [], [], g)) =
      int (length (filter (in_vocabulary d) toks))"
    by (simp add: fold_convert_count)
  ultimately show ?thesis by (simp add: t)
qed

lemma line_sg:
  "getLine_tokens 1024 (args_m dict_sg)
      \<lparr>buf = ''a zz b __label__x'' @ [CHR 0x0A], pos = 0, eofbit = False\<rparr> =
    ([''a'', ''zz'', ''b'', ''__label__x'', ''</s>''],
     \<lparr>buf = ''a zz b __label__x'' @ [CHR 0x0A], pos = 18, eofbit = False\<rparr>)"
  by (simp add: getLine_tokens_def getLine_loop.simps readWord_def readWord_loop.simps
      is_delimiter_def Let_def EOS_def dict_sg_def args0_def)

theorem getLine_ids_count_witness:
  "getLine_ids 30000000 1024 dict_sg
      \<lparr>buf = ''a zz b __label__x'' @ [CHR 0x0A], pos = 0, eofbit = False\<rparr> (\<lambda>_. 3 / 4) =
    Some ((4, [1, 2], [1466432373, - 418632219, - 677604519], [0], (\<lambda>_. 3 / 4)),
          \<lparr>buf = ''a zz b __label__x'' @ [CHR 0x0A], pos = 18, eofbit = False\<rparr>) \<and>
   length (filter (in_vocabulary dict_sg) [''a'', ''zz'', ''b'', ''__label__x'', ''</s>'']) = 4"
proof -
  let ?s = "\<lparr>buf = ''a zz b __label__x'' @ [CHR 0x0A], pos = 0, eofbit = False\<rparr>"
  have run: "getLine_ids 30000000 1024 dict_sg ?s (\<lambda>_. 3 / 4) =
    Some ((4, [1, 2], [1466432373, - 418632219, - 677604519], [0], (\<lambda>_. 3 / 4)),
          \<lparr>buf = ''a zz b __label__x'' @ [CHR 0x0A], pos = 18, eofbit = False\<rparr>)"
    unfolding getLine_ids_def line_sg
    by (simp add: find_def find_loop.simps hashes getType_def discard_def uniform_def
        dict_sg_def dict0_def args0_def Let_def)
  have "(0::nat) < 30000000" "length (words_m dict_sg) < 30000000"
    "model (args_m dict_sg) = sup \<or> nwords_m dict_sg \<le> int (length (pdiscard_m dict_sg))"
    by (simp_all add: dict_sg_def dict0_def)
  from getLine_ids_count [OF this(1) dict_sg_ok(1) this(2) dict_sg_ok(2) this(3), of 1024 ?s "\<lambda>_. 3 / 4"]
  have "length (filter (in_vocabulary dict_sg) [''a'', ''zz'', ''b'', ''__label__x'', ''</s>'']) = 4"
    unfolding line_sg run by simp
  with run show ?thesis by simp
qed

lemma addNgrams_inner_stop:
  "\<not> (j < length hashes \<and> int j < int i + n) \<Longrightarrow>
   addNgrams_inner d hashes i n j h line = Some line"
  by (subst addNgrams_inner.simps) (rule if_not_P)

lemma addNgrams_inner_div0:
  "j < length hashes \<and> int j < int i + n \<Longrightarrow> bucket (args_m d) = 0 \<Longrightarrow>
   addNgrams_inner d hashes i n j h line = None"
  by (subst addNgrams_inner.simps) simp

lemma addNgrams_inner_step:
  assumes "j < length hashes \<and> int j < int i + n" and "bucket (args_m d) \<noteq> 0"
  shows "addNgrams_inner d hashes i n j h line =
     (let h' = h * 116049371 + word_of_int (hashes ! j);
          k = sint (h' mod (word_of_int (bucket (args_m d)) :: 64 word))
      in if quantidx_m d \<noteq> [] then
        (case map_of (quantidx_m d) (to_int32 k) of
           Some v \<Rightarrow> addNgrams_inner d hashes i n (j + 1) h' (line @ [to_int32 (nwords_m d + v)])
         | None \<Rightarrow> addNgrams_inner d hashes i n (j + 1) h' line)
      else addNgrams_inner d hashes i n (j + 1) h' (line @ [to_int32 (nwords_m d + k)]))"
  using assms by (subst addNgrams_inner.simps) simp

lemma addNgrams_inner_append:
  "addNgrams_inner d hashes i n j h (l0 @ line) =
     map_option ((@) l0) (addNgrams_inner d hashes i n j h line)"
proof (induction d hashes i n j h line rule: addNgrams_inner.induct)
  case (1 d hashes i n j h line)
  show ?case
  proof (cases "j < length hashes \<and> int j < int i + n")
    case False
    then show ?thesis by (simp add: addNgrams_inner_stop)
  next
    case True
    show ?thesis
    proof (cases "bucket (args_m d) = 0")
      case b: True
      with True show ?thesis by (simp add: addNgrams_inner_div0)
    next
      case b: False
      let ?h' = "h * 116049371 + word_of_int (hashes ! j)"
      let ?k = "sint (?h' mod (word_of_int (bucket (args_m d)) :: 64 word))"
      note step = addNgrams_inner_step [OF True b]
      show ?thesis
      proof (cases "quantidx_m d \<noteq> []")
        case q: True
        show ?thesis
        proof (cases "map_of (quantidx_m d) (to_int32 ?k)")
          case None
          with q show ?thesis
            using "1.IH"(1) [OF True b refl refl q None] by (simp add: step Let_def)
        next
          case (Some v)
          with q show ?thesis
            using "1.IH"(2) [OF True b refl refl q Some] by (simp add: step Let_def)
        qed
      next
        case q: False
        then show ?thesis
          using "1.IH"(3) [OF True b refl refl q] by (simp add: step Let_def)
      qed
    qed
  qed
qed

lemma addNgrams_outer_append:
  "addNgrams_outer d hashes n i (l0 @ line) =
     map_option ((@) l0) (addNgrams_outer d hashes n i line)"
proof (induction d hashes n i line rule: addNgrams_outer.induct)
  case (1 d hashes n i line)
  show ?case
  proof (cases "i < length hashes")
    case False
    then show ?thesis by (simp add: addNgrams_outer.simps [of d hashes n i])
  next
    case True
    show ?thesis
    proof (cases "addNgrams_inner d hashes i n (i + 1) (word_of_int (hashes ! i)) line")
      case None
      with True show ?thesis
        by (simp add: addNgrams_outer.simps [of d hashes n i] addNgrams_inner_append)
    next
      case (Some line')
      with True "1.IH" [OF True Some] show ?thesis
        by (simp add: addNgrams_outer.simps [of d hashes n i] addNgrams_inner_append)
    qed
  qed
qed

lemma addNgrams_append:
  "addNgrams d line hashes n = map_option ((@) line) (addNgrams d [] hashes n)"
  using addNgrams_outer_append [of d hashes n 0 line "[]"] by (simp add: addNgrams_def)


text \<open>
  Claim C1, as the code has it.  For a supervised dictionary, \<^verbatim>\<open>getLine\<close> appends to
  the word ids of the base conversion the combined features that \<^verbatim>\<open>addNgrams\<close>
  computes: from the list of token hashes when \<^verbatim>\<open>quant_\<close> is set, and from the word ids
  themselves when it is not.
\<close>

theorem getLine_appends_ngrams:
  assumes "model (args_m d) = sup"
    and "getLine_ids cap mls d s g = Some ((n, ws, hs, ls, g'), s')"
  shows "getLine cap mls d s g =
           map_option (\<lambda>feats. (n, ws @ feats, ls, s', g'))
             (addNgrams d [] (if quant_m d then hs else ws) (wordNgrams (args_m d)))"
proof (cases "quant_m d")
  case True
  with assms show ?thesis
    by (cases "addNgrams d [] hs (wordNgrams (args_m d))")
       (simp_all add: getLine_def addNgrams_append [of d ws])
next
  case False
  with assms show ?thesis
    by (cases "addNgrams d [] ws (wordNgrams (args_m d))") (simp_all add: getLine_def)
qed

lemma tokens_ab:
  "getLine_tokens 1024 args0 line_ab = ([''a'', ''b'', ''</s>''], line_ab_read)"
  by (simp add: getLine_tokens_def getLine_loop.simps readWord_def readWord_loop.simps
      is_delimiter_def Let_def EOS_def args0_def line_ab_def line_ab_read_def)

lemma ids_ab:
  "getLine_ids 30000000 1024 dict0 line_ab g =
     Some ((3, [0, 1, 2], [- 468965076, - 418632219, - 677604519], [], snd (uniform (snd (uniform (snd (uniform g)))))), line_ab_read)"
proof -
  have a: "args_m dict0 = args0" by (simp add: dict0_def)
  show ?thesis
    unfolding getLine_ids_def a tokens_ab
    by (simp add: find_def find_loop.simps hashes getType_def discard_def
        dict0_def args0_def Let_def)
qed

lemma ids_ab_q:
  "getLine_ids 30000000 1024 dict_q line_ab g =
     Some ((3, [0, 1, 2], [- 468965076, - 418632219, - 677604519], [], snd (uniform (snd (uniform (snd (uniform g)))))), line_ab_read)"
proof -
  have a: "args_m dict_q = args0" by (simp add: dict_q_def dict0_def)
  show ?thesis
    unfolding getLine_ids_def a tokens_ab
    by (simp add: find_def find_loop.simps hashes getType_def discard_def
        dict_q_def dict0_def args0_def Let_def)
qed

lemma ngrams_of_ids: "addNgrams dict0 [] [0, 1, 2] 2 = Some [4, 49376]"
  by (simp add: addNgrams_def addNgrams_outer.simps addNgrams_inner.simps dict0_def args0_def
      Let_def to_int32_def)

lemma ngrams_of_hashes:
  "addNgrams dict0 [] [- 468965076, - 418632219, - 677604519] 2 = Some [152204, 662851]"
  by (simp add: addNgrams_def addNgrams_outer.simps addNgrams_inner.simps dict0_def args0_def
      Let_def to_int32_def)

lemma ngrams_of_hashes_q:
  "addNgrams dict_q [] [- 468965076, - 418632219, - 677604519] 2 = Some [3]"
  by (simp add: addNgrams_def addNgrams_outer.simps addNgrams_inner.simps dict_q_def dict0_def
      args0_def Let_def to_int32_def)

theorem getLine_appends_ngrams_witness:
  "getLine 30000000 1024 dict0 line_ab (\<lambda>_. 0) = Some (3, [0, 1, 2, 4, 49376], [], line_ab_read, (\<lambda>_. 0)) \<and>
   getLine 30000000 1024 dict_q line_ab (\<lambda>_. 0) = Some (3, [0, 1, 2, 3], [], line_ab_read, (\<lambda>_. 0))"
proof -
  have m: "model (args_m dict0) = sup" "model (args_m dict_q) = sup"
    by (simp_all add: dict_q_def dict0_def args0_def)
  have q: "\<not> quant_m dict0" "quant_m dict_q" "wordNgrams (args_m dict0) = 2"
    "wordNgrams (args_m dict_q) = 2"
    by (simp_all add: dict_q_def dict0_def args0_def)
  from getLine_appends_ngrams [OF m(1) ids_ab, of "\<lambda>_. 0"]
    getLine_appends_ngrams [OF m(2) ids_ab_q, of "\<lambda>_. 0"]
  show ?thesis
    by (simp add: q ngrams_of_ids ngrams_of_hashes_q uniform_def)
qed

text \<open>
  Claim C1 as stated fails without quantization: on the line \<^verbatim>\<open>a b\<close> the code appends
  the features 4 and 49376 of the word ids 0, 1, 2, where the features of the three
  token hashes would be 152204 and 662851.
\<close>

theorem getLine_appends_ngrams_counterexample:
  "getLine_ids 30000000 1024 dict0 line_ab (\<lambda>_. 0) =
     Some ((3, [0, 1, 2], [- 468965076, - 418632219, - 677604519], [], (\<lambda>_. 0)), line_ab_read) \<and>
   addNgrams dict0 [] [- 468965076, - 418632219, - 677604519] (wordNgrams (args_m dict0)) =
     Some [152204, 662851] \<and>
   getLine 30000000 1024 dict0 line_ab (\<lambda>_. 0) \<noteq>
     Some (3, [0, 1, 2] @ [152204, 662851], [], line_ab_read, (\<lambda>_. 0))"
proof -
  have w: "wordNgrams (args_m dict0) = 2" by (simp add: dict0_def args0_def)
  have "getLine 30000000 1024 dict0 line_ab (\<lambda>_. 0) =
      Some (3, [0, 1, 2, 4, 49376], [], line_ab_read, (\<lambda>_. 0))"
    by (simp add: getLine_def ids_ab ngrams_of_ids w uniform_def) (simp add: dict0_def args0_def)
  then show ?thesis
    by (simp add: ids_ab ngrams_of_hashes w uniform_def)
qed

lemma matched_test:
  assumes m: "matched sel i j" and s: "sorted sel" "distinct sel"
  shows "(j < length sel \<and> sel ! j = int i) = (int i \<in> set sel)"
proof
  assume "j < length sel \<and> sel ! j = int i"
  then show "int i \<in> set sel" by (metis nth_mem)
next
  assume "int i \<in> set sel"
  then obtain k where k: "k < length sel" "sel ! k = int i" by (auto simp: in_set_conv_nth)
  have jk: "j \<le> k"
  proof (rule ccontr)
    assume "\<not> j \<le> k"
    then have "k < j" by simp
    with m have "sel ! k < int i" by (simp add: matched_def)
    with k show False by simp
  qed
  have "\<not> j < k"
  proof
    assume "j < k"
    with s k(1) have "sel ! j < sel ! k"
      by (metis sorted_nth_mono nth_eq_iff_index_eq less_imp_le less_le less_trans nat_neq_iff)
    moreover from m k(1) \<open>j < k\<close> have "int i \<le> sel ! j" by (simp add: matched_def)
    ultimately show False using k(2) by simp
  qed
  with jk have "j = k" by simp
  with k show "j < length sel \<and> sel ! j = int i" by simp
qed

lemma matched_step:
  assumes m: "matched sel i j" and s: "sorted sel" "distinct sel"
  shows "matched sel (Suc i) (if int i \<in> set sel then Suc j else j)"
proof (cases "int i \<in> set sel")
  case True
  with matched_test [OF m s] have j: "j < length sel" "sel ! j = int i" by simp_all
  have "int (Suc i) \<le> sel ! k" if "k < length sel" "Suc j \<le> k" for k
  proof -
    from that have "j < k" by simp
    with s that(1) have "sel ! j < sel ! k"
      by (metis sorted_nth_mono nth_eq_iff_index_eq less_imp_le less_le less_trans nat_neq_iff)
    with j show ?thesis by simp
  qed
  moreover have "sel ! k < int (Suc i)" if "k < Suc j" for k
  proof (cases "k = j")
    case True
    with j show ?thesis by simp
  next
    case False
    with that have "k < j" by simp
    with m have "sel ! k < int i" by (simp add: matched_def)
    then show ?thesis by simp
  qed
  ultimately show ?thesis using True j by (simp add: matched_def)
next
  case False
  have "int (Suc i) \<le> sel ! k" if "k < length sel" "j \<le> k" for k
  proof -
    from m that have "int i \<le> sel ! k" by (simp add: matched_def)
    moreover from False that(1) have "sel ! k \<noteq> int i" by (metis nth_mem)
    ultimately show ?thesis by simp
  qed
  moreover have "sel ! k < int (Suc i)" if "k < j" for k
  proof -
    from that m have "sel ! k < int i" by (simp add: matched_def)
    then show ?thesis by simp
  qed
  ultimately show ?thesis using False m by (simp add: matched_def)
qed

lemma nths_take_Suc:
  assumes "i < length ws"
  shows "nths (take (Suc i) ws) A = nths (take i ws) A @ (if i \<in> A then [ws ! i] else [])"
proof -
  have "take (Suc i) ws = take i ws @ [ws ! i]"
    using assms by (rule take_Suc_conv_app_nth)
  then show ?thesis using assms by (simp add: nths_append)
qed


lemma prune_loop_words:
  assumes "prune_loop cap d sel i j = Some (d', j')"
    and "length (words_m d) = length ws" and "drop i (words_m d) = drop i ws"
    and "take j (words_m d) = nths (take i ws) (survivors ws sel)" and "j \<le> i \<and> i \<le> length ws"
    and s: "sorted sel" "distinct sel"
    and g: "\<forall>k<length ws. (int k < nw) = (type (ws ! k) = entry_word)"
    and "int i < nw \<longrightarrow> matched sel i j"
  shows "take j' (words_m d') = nths ws (survivors ws sel) \<and> j' \<le> length ws \<and>
         length (words_m d') = length ws \<and>
         args_m d' = args_m d \<and> nwords_m d' = nwords_m d \<and> nlabels_m d' = nlabels_m d \<and>
         size_m d' = size_m d \<and> ntokens_m d' = ntokens_m d \<and> quant_m d' = quant_m d \<and>
         quantidx_m d' = quantidx_m d \<and> pdiscard_m d' = pdiscard_m d"
  using assms(1-5,9,6,7)
proof (induction cap d sel i j rule: prune_loop.induct)
  case (1 cap d sel i j)
  note len = "1.prems"(2) and dr = "1.prems"(3) and tk = "1.prems"(4) and ji = "1.prems"(5)
    and mt = "1.prems"(6) and s = "1.prems"(7,8)
  show ?case
  proof (cases "i < length (words_m d)")
    case False
    with "1.prems"(1) have "d' = d" "j' = j"
      by (simp_all add: prune_loop.simps [of cap d sel i j])
    moreover from False len have "take i ws = ws" by simp
    moreover from ji have "j \<le> length ws" by simp
    ultimately show ?thesis using tk len by simp
  next
    case True
    with len have iw: "i < length ws" by simp
    have "drop i (words_m d) ! 0 = drop i ws ! 0" using dr by simp
    with True iw have wi: "words_m d ! i = ws ! i" by simp
    have "drop 1 (drop i (words_m d)) = drop 1 (drop i ws)" using dr by simp
    then have dr1: "drop (i + 1) (words_m d) = drop (i + 1) ws" by simp
    from "1.prems"(1) True obtain ty where ty: "getType d (int i) = Some ty"
      by (subst (asm) prune_loop.simps) (auto split: option.splits)
    then have tyv: "ty = type (ws ! i)"
      by (auto simp: getType_def wi split: if_splits)
    have test: "(ty = entry_label \<or> j < length sel \<and> sel ! j = int i) = (i \<in> survivors ws sel)"
    proof (cases "int i < nw")
      case True
      with g iw have w: "type (ws ! i) = entry_word" by simp
      from True mt have m: "matched sel i j" by simp
      from matched_test [OF m s] w show ?thesis
        by (simp add: tyv survivors_def)
    next
      case False
      with g iw have "type (ws ! i) \<noteq> entry_word" by simp
      then have "type (ws ! i) = entry_label" by (cases "type (ws ! i)") simp_all
      then show ?thesis by (simp add: tyv survivors_def)
    qed
    have nx: "int (Suc i) < nw \<longrightarrow> matched sel (Suc i) (if i \<in> survivors ws sel then Suc j else j)"
    proof
      assume a: "int (Suc i) < nw"
      then have "int i < nw" by simp
      with mt g iw have m: "matched sel i j" and w: "type (ws ! i) = entry_word" by simp_all
      from matched_step [OF m s] w
      show "matched sel (Suc i) (if i \<in> survivors ws sel then Suc j else j)"
        by (simp add: survivors_def)
    qed
    show ?thesis
    proof (cases "i \<in> survivors ws sel")
      case False
      with "1.prems"(1) True ty test have r: "prune_loop cap d sel (i + 1) j = Some (d', j')"
        by (subst (asm) prune_loop.simps) simp
      have "take j (words_m d) = nths (take (i + 1) ws) (survivors ws sel)"
        using tk False iw by (simp add: nths_take_Suc)
      with dr1 show ?thesis
        using "1.IH"(2) [OF True ty _ r len] test False ji iw nx s by simp
    next
      case sv: True
      define d1 where "d1 = d\<lparr>words_m := (words_m d)[j := words_m d ! i]\<rparr>"
      from "1.prems"(1) True ty test sv obtain h where
        h: "find cap d1 (word (words_m d1 ! j)) = Some h"
        and r: "prune_loop cap (d1\<lparr>word2int_m := (word2int_m d1)(h := int j)\<rparr>) sel (i + 1) (j + 1)
              = Some (d', j')"
        by (subst (asm) prune_loop.simps) (auto simp: Let_def d1_def split: option.splits)
      let ?d2 = "d1\<lparr>word2int_m := (word2int_m d1)(h := int j)\<rparr>"
      have jl: "j < length (words_m d)" using ji True by simp
      have ji': "j \<le> i" using ji by simp
      have l2: "length (words_m ?d2) = length ws" using len by (simp add: d1_def)
      have dr2: "drop (i + 1) (words_m ?d2) = drop (i + 1) ws"
      proof -
        have "drop (i + 1) ((words_m d)[j := words_m d ! i]) = drop (i + 1) (words_m d)"
          using ji' by simp
        also have "\<dots> = drop (i + 1) ws" by (rule dr1)
        finally show ?thesis by (simp add: d1_def)
      qed
      have tk2: "take (j + 1) (words_m ?d2) = nths (take (i + 1) ws) (survivors ws sel)"
      proof -
        have "take (Suc j) ((words_m d)[j := ws ! i]) = take j (words_m d) @ [ws ! i]"
          using jl by (simp add: take_Suc_conv_app_nth)
        then show ?thesis using tk sv iw by (simp add: d1_def wi nths_take_Suc)
      qed
      have "take j' (words_m d') = nths ws (survivors ws sel) \<and> j' \<le> length ws \<and>
         length (words_m d') = length ws \<and>
         args_m d' = args_m ?d2 \<and> nwords_m d' = nwords_m ?d2 \<and> nlabels_m d' = nlabels_m ?d2 \<and>
         size_m d' = size_m ?d2 \<and> ntokens_m d' = ntokens_m ?d2 \<and> quant_m d' = quant_m ?d2 \<and>
         quantidx_m d' = quantidx_m ?d2 \<and> pdiscard_m d' = pdiscard_m ?d2"
        using "1.IH"(1) [OF True ty _ d1_def h r l2 dr2 tk2] test sv ji iw nx s by simp
      then show ?thesis by (simp add: d1_def)
    qed
  qed
qed

lemma sorted_wrt_nths: "sorted_wrt R xs \<Longrightarrow> sorted_wrt R (nths xs A)"
proof (induction xs arbitrary: A)
  case Nil
  then show ?case by simp
next
  case (Cons x xs)
  then have "\<forall>y\<in>set (nths xs {j. Suc j \<in> A}). R x y"
    using set_nths_subset [of xs "{j. Suc j \<in> A}"] by auto
  with Cons show ?case by (simp add: nths_Cons)
qed

lemma count_descending_sorted:
  "count_descending d \<longleftrightarrow>
     sorted_wrt (\<lambda>a b. type a = type b \<longrightarrow> count b \<le> count a) (words_m d)"
  by (auto simp: count_descending_def sorted_wrt_iff_nth_less)

lemma convertNgrams_fields:
  assumes "convertNgrams iter cap mls corpus g0 d ngrams = Some (dq, remaining)"
  shows "\<exists>q. dq = d\<lparr>quantidx_m := q\<rparr>"
  using assms by (auto simp: convertNgrams_def split: option.splits bind_splits prod.splits)

lemma prune_select_fields:
  assumes "prune_select iter cap mls corpus g0 d sel ngrams = Some (d1, idx1)"
  shows "\<exists>q. d1 = d\<lparr>quantidx_m := q\<rparr>"
proof (cases "ngrams = []")
  case True
  with assms have "d1 = d" by (simp add: prune_select_def)
  then show ?thesis by (intro exI [of _ "quantidx_m d"]) simp
next
  case False
  with assms obtain dq rem where "convertNgrams iter cap mls corpus g0 d ngrams = Some (dq, rem)"
    "d1 = dq" by (auto simp: prune_select_def split: bind_splits)
  with convertNgrams_fields show ?thesis by blast
qed

text \<open>What \<^verbatim>\<open>prune\<close> does to the store, when it returns.\<close>

lemma prune_entries_result:
  assumes res: "prune_entries cap d sel = Some d'"
    and gr: "grouped d" and sz: "sizes_add_up d"
    and ss: "sorted sel" "distinct sel" and sr: "\<forall>x\<in>set sel. 0 \<le> x \<and> x < nwords_m d"
  shows "words_m d' =
           nths (take (nat (nwords_m d)) (words_m d)) (survivors (words_m d) sel)
           @ drop (nat (nwords_m d)) (words_m d)"
    and "length (nths (take (nat (nwords_m d)) (words_m d)) (survivors (words_m d) sel))
          = length sel"
    and "nwords_m d' = int (length sel)"
    and "nlabels_m d' = nlabels_m d" and "size_m d' = nwords_m d' + nlabels_m d'"
    and "args_m d' = args_m d" and "ntokens_m d' = ntokens_m d" and "quantidx_m d' = quantidx_m d"
proof -
  let ?ws = "words_m d"
  let ?nw = "nwords_m d"
  let ?n = "nat ?nw"
  let ?A = "survivors ?ws sel"
  from sz have s1: "size_m d = ?nw + nlabels_m d" "size_m d = int (length ?ws)"
    "0 \<le> ?nw" "0 \<le> nlabels_m d"
    by (simp_all add: sizes_add_up_def)
  then have nle: "?n \<le> length ?ws" and nl: "nat (nlabels_m d) = length ?ws - ?n" by simp_all
  from gr have g: "\<forall>k<length ?ws. (int k < ?nw) = (type (?ws ! k) = entry_word)"
    by (simp add: grouped_def)
  let ?d1 = "d\<lparr>word2int_m := (\<lambda>_. - 1)\<rparr>"
  from res obtain d2 j where lp: "prune_loop cap ?d1 sel 0 0 = Some (d2, j)"
    by (auto simp: prune_entries_def split: bind_splits)
  define d4 where "d4 = d2\<lparr>nwords_m := int (length sel),
        size_m := int (length sel) + nlabels_m d2\<rparr>"
  from res lp have d': "d' = d4\<lparr>words_m := take (nat (size_m d4)) (words_m d4)\<rparr>"
    by (simp add: prune_entries_def Let_def d4_def split: if_splits)
  have m0: "int 0 < ?nw \<longrightarrow> matched sel 0 0" using sr by (simp add: matched_def)
  have "take j (words_m d2) = nths ?ws ?A \<and> j \<le> length ?ws \<and>
         length (words_m d2) = length ?ws \<and>
         args_m d2 = args_m ?d1 \<and> nwords_m d2 = nwords_m ?d1 \<and> nlabels_m d2 = nlabels_m ?d1 \<and>
         size_m d2 = size_m ?d1 \<and> ntokens_m d2 = ntokens_m ?d1 \<and> quant_m d2 = quant_m ?d1 \<and>
         quantidx_m d2 = quantidx_m ?d1 \<and> pdiscard_m d2 = pdiscard_m ?d1"
    by (rule prune_loop_words [OF lp _ _ _ _ ss g m0]) simp_all
  then have tk: "take j (words_m d2) = nths ?ws ?A" and jl: "j \<le> length ?ws"
    and l2: "length (words_m d2) = length ?ws"
    and f2: "nlabels_m d2 = nlabels_m d" "args_m d2 = args_m d" "ntokens_m d2 = ntokens_m d"
      "quantidx_m d2 = quantidx_m d"
    by simp_all
  have split: "nths ?ws ?A = nths (take ?n ?ws) ?A @ drop ?n ?ws"
  proof -
    have "\<forall>i<length (drop ?n ?ws). i \<in> {j. j + length (take ?n ?ws) \<in> ?A}"
    proof (intro allI impI)
      fix i assume "i < length (drop ?n ?ws)"
      then have k: "i + ?n < length ?ws" by simp
      have "\<not> int (i + ?n) < ?nw" using s1(3) by simp
      with g k have "type (?ws ! (i + ?n)) \<noteq> entry_word" by blast
      then have "type (?ws ! (i + ?n)) = entry_label" by (cases "type (?ws ! (i + ?n))") simp_all
      then show "i \<in> {j. j + length (take ?n ?ws) \<in> ?A}"
        using nle by (simp add: survivors_def min_def)
    qed
    then have "nths (drop ?n ?ws) {j. j + length (take ?n ?ws) \<in> ?A} = drop ?n ?ws"
      by (rule nths_all)
    moreover have "nths ?ws ?A = nths (take ?n ?ws @ drop ?n ?ws) ?A" by simp
    ultimately show ?thesis by (simp only: nths_append)
  qed
  show cnt: "length (nths (take ?n ?ws) ?A) = length sel"
  proof -
    have "{i. i < length (take ?n ?ws) \<and> i \<in> ?A} = nat ` set sel"
    proof (intro set_eqI iffI)
      fix i assume "i \<in> {i. i < length (take ?n ?ws) \<and> i \<in> ?A}"
      then have i: "i < ?n" "i \<in> ?A" by simp_all
      then have "i < length ?ws" "int i < ?nw" using nle by simp_all
      with g have "type (?ws ! i) = entry_word" by blast
      with i(2) have "int i \<in> set sel" by (simp add: survivors_def)
      then show "i \<in> nat ` set sel" by force
    next
      fix i assume "i \<in> nat ` set sel"
      then obtain x where x: "x \<in> set sel" "i = nat x" by auto
      with sr have "0 \<le> x" "x < ?nw" by auto
      with x nle show "i \<in> {i. i < length (take ?n ?ws) \<and> i \<in> ?A}"
        by (simp add: survivors_def)
    qed
    moreover have "inj_on nat (set sel)"
    proof (rule inj_onI)
      fix x y assume "x \<in> set sel" "y \<in> set sel" "nat x = nat y"
      with sr have "0 \<le> x" "0 \<le> y" "nat x = nat y" by auto
      then show "x = y" by simp
    qed
    then have "card (nat ` set sel) = card (set sel)" by (rule card_image)
    ultimately show ?thesis using ss(2) by (simp add: length_nths distinct_card)
  qed
  have "length (take j (words_m d2)) = length (nths ?ws ?A)" using tk by simp
  then have j: "j = length sel + (length ?ws - ?n)"
    using jl l2 by (simp add: split cnt)
  have "nat (size_m d4) = j" using s1(4) by (simp add: d4_def f2 j nl [symmetric])
  then have w': "words_m d' = nths ?ws ?A" by (simp add: d' d4_def tk)
  show "words_m d' = nths (take ?n ?ws) ?A @ drop ?n ?ws"
    using w' split by simp
  show "nwords_m d' = int (length sel)" by (simp add: d' d4_def)
  show "nlabels_m d' = nlabels_m d" by (simp add: d' d4_def f2)
  show "size_m d' = nwords_m d' + nlabels_m d'" by (simp add: d' d4_def)
  show "args_m d' = args_m d" "ntokens_m d' = ntokens_m d" "quantidx_m d' = quantidx_m d"
    by (simp_all add: d' d4_def f2)
qed

lemma prune_loop_returns:
  assumes "0 < cap" and "length (words_m d) \<le> cap" and "size_m d = int (length (words_m d))"
    and "\<forall>h<cap. word2int_m d h = - 1 \<or>
           (0 \<le> word2int_m d h \<and> word2int_m d h < int (length (words_m d)))"
    and "card (occupied cap d) \<le> j" and "j \<le> i"
  shows "\<exists>r. prune_loop cap d sel i j = Some r"
  using assms
proof (induction cap d sel i j rule: prune_loop.induct)
  case (1 cap d sel i j)
  note cp = "1.prems"(1) and len = "1.prems"(2) and sz = "1.prems"(3) and rg = "1.prems"(4)
    and cd = "1.prems"(5) and ji = "1.prems"(6)
  show ?case
  proof (cases "i < length (words_m d)")
    case False
    then show ?thesis by (simp add: prune_loop.simps [of cap d sel i j])
  next
    case True
    then have ty: "getType d (int i) = Some (type (words_m d ! i))"
      using sz by (simp add: getType_def)
    show ?thesis
    proof (cases "type (words_m d ! i) = entry_label \<or> j < length sel \<and> sel ! j = int i")
      case False
      have "\<exists>r. prune_loop cap d sel (i + 1) j = Some r"
        using "1.IH"(2) [OF True ty False cp len sz rg cd] ji by simp
      with True ty False show ?thesis
        by (subst prune_loop.simps) auto
    next
      case k: True
      define d1 where "d1 = d\<lparr>words_m := (words_m d)[j := words_m d ! i]\<rparr>"
      have r1: "\<forall>h<cap. word2int_m d1 h = - 1 \<or>
           (0 \<le> word2int_m d1 h \<and> word2int_m d1 h < int (length (words_m d1)))"
        using rg by (simp add: d1_def)
      have "occupied cap d1 = occupied cap d" by (simp add: occupied_def d1_def)
      with cd ji True len have "card (occupied cap d1) < cap" by simp
      then have "has_empty_slot cap d1" by (rule empty_slot_card)
      from find_returns [OF cp r1 this, of "word (words_m d1 ! j)"]
      obtain h where h: "find cap d1 (word (words_m d1 ! j)) = Some h" by blast
      let ?d2 = "d1\<lparr>word2int_m := (word2int_m d1)(h := int j)\<rparr>"
      have "card (occupied cap ?d2) \<le> Suc (card (occupied cap d1))"
        by (rule occupied_update)
      with cd \<open>occupied cap d1 = occupied cap d\<close> have c2: "card (occupied cap ?d2) \<le> j + 1"
        by simp
      have r2: "\<forall>h<cap. word2int_m ?d2 h = - 1 \<or>
           (0 \<le> word2int_m ?d2 h \<and> word2int_m ?d2 h < int (length (words_m ?d2)))"
        using r1 ji True by (simp add: d1_def)
      have "\<exists>r. prune_loop cap ?d2 sel (i + 1) (j + 1) = Some r"
        using "1.IH"(1) [OF True ty k d1_def h cp _ _ r2 c2] len sz ji by (simp add: d1_def)
      with True ty k h show ?thesis
        by (subst prune_loop.simps) (simp add: Let_def d1_def)
    qed
  qed
qed

lemma prune_entries_returns:
  assumes cap: "0 < cap" "length (words_m d) \<le> cap"
    and gr: "grouped d" and sz: "sizes_add_up d"
    and ss: "sorted sel" "distinct sel" and sr: "\<forall>x\<in>set sel. 0 \<le> x \<and> x < nwords_m d"
  shows "\<exists>d'. prune_entries cap d sel = Some d'"
proof -
  let ?d1 = "d\<lparr>word2int_m := (\<lambda>_. - 1)\<rparr>"
  let ?ws = "words_m d"
  from sz have s1: "size_m d = nwords_m d + nlabels_m d" "size_m d = int (length ?ws)"
    "0 \<le> nwords_m d" "0 \<le> nlabels_m d"
    by (simp_all add: sizes_add_up_def)
  have "\<exists>r. prune_loop cap ?d1 sel 0 0 = Some r"
    by (rule prune_loop_returns [OF cap(1)]) (simp_all add: cap s1(2) occupied_def)
  then obtain d2 j where lp: "prune_loop cap ?d1 sel 0 0 = Some (d2, j)" by auto
  from gr have g: "\<forall>k<length ?ws. (int k < nwords_m d) = (type (?ws ! k) = entry_word)"
    by (simp add: grouped_def)
  have m0: "int 0 < nwords_m d \<longrightarrow> matched sel 0 0" using sr by (simp add: matched_def)
  have "take j (words_m d2) = nths ?ws (survivors ?ws sel) \<and> j \<le> length ?ws \<and>
         length (words_m d2) = length ?ws \<and>
         args_m d2 = args_m ?d1 \<and> nwords_m d2 = nwords_m ?d1 \<and> nlabels_m d2 = nlabels_m ?d1 \<and>
         size_m d2 = size_m ?d1 \<and> ntokens_m d2 = ntokens_m ?d1 \<and> quant_m d2 = quant_m ?d1 \<and>
         quantidx_m d2 = quantidx_m ?d1 \<and> pdiscard_m d2 = pdiscard_m ?d1"
    by (rule prune_loop_words [OF lp _ _ _ _ ss g m0]) simp_all
  then have l2: "length (words_m d2) = length ?ws" and nl: "nlabels_m d2 = nlabels_m d"
    by simp_all
  have "set sel \<subseteq> {0..<nwords_m d}" using sr by auto
  then have "card (set sel) \<le> card {0..<nwords_m d}" by (intro card_mono) simp_all
  then have "int (length sel) \<le> nwords_m d"
    using ss(2) s1(3) by (simp add: distinct_card)
  then have "\<not> (int (length sel) + nlabels_m d < 0 \<or>
      int (length ?ws) < int (length sel) + nlabels_m d)"
    using s1 by linarith
  then show ?thesis
    by (simp add: prune_entries_def lp Let_def l2 nl)
qed

lemma prune_entries_invariant:
  assumes res: "prune_entries cap d sel = Some d'"
    and gr: "grouped d" and cd: "count_descending d" and sz: "sizes_add_up d"
    and ss: "sorted sel" "distinct sel" and sr: "\<forall>x\<in>set sel. 0 \<le> x \<and> x < nwords_m d"
  shows "grouped d' \<and> count_descending d' \<and> sizes_add_up d'"
proof -
  let ?ws = "words_m d"
  let ?n = "nat (nwords_m d)"
  let ?kw = "nths (take ?n ?ws) (survivors ?ws sel)"
  note r = prune_entries_result [OF res gr sz ss sr]
  from sz have s1: "size_m d = nwords_m d + nlabels_m d" "size_m d = int (length ?ws)"
    "0 \<le> nwords_m d" "0 \<le> nlabels_m d"
    by (simp_all add: sizes_add_up_def)
  then have nle: "?n \<le> length ?ws" by simp
  from gr have g: "\<forall>k<length ?ws. (int k < nwords_m d) = (type (?ws ! k) = entry_word)"
    by (simp add: grouped_def)
  have kw: "type e = entry_word" if "e \<in> set ?kw" for e
  proof -
    from that have "e \<in> set (take ?n ?ws)" by (rule in_set_nthsD)
    then obtain k where k: "k < ?n" "k < length ?ws" "e = ?ws ! k"
      by (auto simp: in_set_conv_nth)
    with g show ?thesis by auto
  qed
  have kl: "type (drop ?n ?ws ! k) = entry_label" if "k < length (drop ?n ?ws)" for k
  proof -
    from that have k: "?n + k < length ?ws" by simp
    have "\<not> int (?n + k) < nwords_m d" using s1(3) by simp
    with g k have "type (?ws ! (?n + k)) \<noteq> entry_word" by blast
    then have "type (?ws ! (?n + k)) = entry_label" by (cases "type (?ws ! (?n + k))") simp_all
    then show ?thesis using nle by simp
  qed
  have "grouped d'"
    unfolding grouped_def
  proof (intro allI impI)
    fix p assume p: "p < length (words_m d')"
    show "(int p < nwords_m d') = (type (words_m d' ! p) = entry_word)"
    proof (cases "p < length ?kw")
      case True
      then have "words_m d' ! p \<in> set ?kw" by (simp add: r(1) nth_append)
      with kw True show ?thesis by (simp add: r(2,3))
    next
      case False
      with p have "p - length ?kw < length (drop ?n ?ws)" by (simp add: r(1))
      from kl [OF this] False show ?thesis by (simp add: r(1,2,3) nth_append)
    qed
  qed
  moreover have "count_descending d'"
  proof -
    let ?R = "\<lambda>a b. type a = type b \<longrightarrow> count b \<le> count a"
    from cd have "sorted_wrt ?R ?ws" by (simp add: count_descending_sorted)
    then have "sorted_wrt ?R (nths ?ws (survivors ?ws sel))" by (rule sorted_wrt_nths)
    moreover have "words_m d' = nths ?ws (survivors ?ws sel)"
    proof -
      have "\<forall>i<length (drop ?n ?ws). i \<in> {j. j + length (take ?n ?ws) \<in> survivors ?ws sel}"
        using kl nle by (simp add: survivors_def min_def add.commute)
      then have "nths (drop ?n ?ws) {j. j + length (take ?n ?ws) \<in> survivors ?ws sel} = drop ?n ?ws"
        by (rule nths_all)
      moreover have "nths ?ws (survivors ?ws sel) = nths (take ?n ?ws @ drop ?n ?ws) (survivors ?ws sel)"
        by simp
      ultimately show ?thesis by (simp only: nths_append r(1))
    qed
    ultimately show ?thesis by (simp add: count_descending_sorted)
  qed
  moreover have "sizes_add_up d'"
    using s1 nle by (simp add: sizes_add_up_def r)
  ultimately show ?thesis by simp
qed

lemma invariant_quantidx:
  "grouped (d\<lparr>quantidx_m := q\<rparr>) = grouped d"
  "count_descending (d\<lparr>quantidx_m := q\<rparr>) = count_descending d"
  "sizes_add_up (d\<lparr>quantidx_m := q\<rparr>) = sizes_add_up d"
  by (simp_all add: grouped_def count_descending_def sizes_add_up_def)

lemma prune_invariant:
  assumes cap: "0 < cap" "length (words_m d) \<le> cap"
    and gr: "grouped d" and cd: "count_descending d" and sz: "sizes_add_up d"
    and nn: "\<forall>i\<in>set idx. 0 \<le> i" and di: "distinct (filter (\<lambda>i. i < nwords_m d) idx)"
  shows "((\<exists>r. prune_select iter cap mls corpus g0 d (sort (filter (\<lambda>i. i < nwords_m d) idx))
              (filter (\<lambda>i. \<not> i < nwords_m d) idx) = Some r) \<longrightarrow>
          (\<exists>r. prune iter cap mls corpus g0 d idx = Some r)) \<and>
         (\<forall>d' idx'. prune iter cap mls corpus g0 d idx = Some (d', idx') \<longrightarrow>
            grouped d' \<and> count_descending d' \<and> sizes_add_up d')"
proof -
  let ?sel = "sort (filter (\<lambda>i. i < nwords_m d) idx)"
  let ?ngr = "filter (\<lambda>i. \<not> i < nwords_m d) idx"
  have ss: "sorted ?sel" "distinct ?sel" using di by simp_all
  have sr: "\<forall>x\<in>set ?sel. 0 \<le> x \<and> x < nwords_m (d\<lparr>quantidx_m := q\<rparr>)" for q
    using nn by simp
  have a: "\<exists>r. prune iter cap mls corpus g0 d idx = Some r"
    if "prune_select iter cap mls corpus g0 d ?sel ?ngr = Some r" for r
  proof -
    obtain d1 idx1 where r: "r = (d1, idx1)" by (cases r)
    from prune_select_fields [OF that [unfolded r]] obtain q where d1: "d1 = d\<lparr>quantidx_m := q\<rparr>" ..
    have "\<exists>d'. prune_entries cap d1 ?sel = Some d'"
      unfolding d1
      by (rule prune_entries_returns [OF cap(1) _ _ _ ss sr])
         (simp_all add: cap invariant_quantidx gr sz)
    with that r show ?thesis by (auto simp: prune_def Let_def)
  qed
  have b: "grouped d' \<and> count_descending d' \<and> sizes_add_up d'"
    if "prune iter cap mls corpus g0 d idx = Some (d', idx')" for d' idx'
  proof -
    from that obtain d1 idx1 where
      s: "prune_select iter cap mls corpus g0 d ?sel ?ngr = Some (d1, idx1)"
      and e: "prune_entries cap d1 ?sel = Some d'"
      by (auto simp: prune_def Let_def split: bind_splits)
    from prune_select_fields [OF s] obtain q where d1: "d1 = d\<lparr>quantidx_m := q\<rparr>" ..
    show ?thesis
      by (rule prune_entries_invariant [OF e [unfolded d1] _ _ _ ss sr])
         (simp_all add: invariant_quantidx gr cd sz)
  qed
  from a b show ?thesis by blast
qed

lemma prune_dict0:
  "prune (\<lambda>m. m) 30000000 1024 None (\<lambda>_. 0) dict0 [2, 0] = Some (dict_pruned, [0, 2])"
  by (simp add: prune_def prune_select_def prune_entries_def prune_loop.simps getType_def
      find_def find_loop.simps hashes dict0_def dict_pruned_def Let_def)

text \<open>
  Claim C3, as the code has it.  \<^verbatim>\<open>threshold\<close>, with any sort that meets the contract of \<^verbatim>\<open>std::sort\<close> and a
  table that can hold the entries, returns a dictionary whose entries are grouped,
  words before labels, in descending order of count within each group, and with
  \<open>size = nwords + nlabels\<close>.  \<^verbatim>\<open>prune\<close>, on a dictionary \<open>p\<close> in that state and a selection
  of ids none of which is negative and whose word ids are distinct, returns whenever
  the conversion of the selected n-gram ids does, and leaves a dictionary in that state.
\<close>

theorem threshold_prune_invariant:
  assumes "std_sort_contract srt" and "0 < cap" and "length (words_m d) \<le> cap"
    and "grouped p" and "count_descending p" and "sizes_add_up p"
    and "length (words_m p) \<le> cap"
    and "\<forall>i\<in>set idx. 0 \<le> i" and "distinct (filter (\<lambda>i. i < nwords_m p) idx)"
  shows "(\<exists>d'. threshold srt cap t tlab d = Some d' \<and>
            grouped d' \<and> count_descending d' \<and> sizes_add_up d') \<and>
         ((\<exists>r. prune_select iter cap mls corpus g0 p (sort (filter (\<lambda>i. i < nwords_m p) idx))
              (filter (\<lambda>i. \<not> i < nwords_m p) idx) = Some r) \<longrightarrow>
          (\<exists>r. prune iter cap mls corpus g0 p idx = Some r)) \<and>
         (\<forall>d' idx'. prune iter cap mls corpus g0 p idx = Some (d', idx') \<longrightarrow>
            grouped d' \<and> count_descending d' \<and> sizes_add_up d')"
  using threshold_invariant [OF assms(1-3), of t tlab]
    prune_invariant [OF assms(2,7,4,5,6,8,9), of iter mls corpus g0]
  by simp

theorem threshold_prune_invariant_witness:
  "threshold insertion_sort 30000000 1 1 dict_raw = Some dict0 \<and>
   grouped dict0 \<and> count_descending dict0 \<and> sizes_add_up dict0 \<and>
   prune (\<lambda>m. m) 30000000 1024 None (\<lambda>_. 0) dict0 [2, 0] = Some (dict_pruned, [0, 2]) \<and>
   grouped dict_pruned \<and> count_descending dict_pruned \<and> sizes_add_up dict_pruned"
proof -
  have h: "(0::nat) < 30000000" "length (words_m dict_raw) \<le> 30000000" by (simp_all add: dict_raw_def)
  note t = threshold_invariant [OF insertion_sort_contract h, of 1 1, unfolded threshold_raw]
  then have i: "grouped dict0" "count_descending dict0" "sizes_add_up dict0" by simp_all
  have j: "length (words_m dict0) \<le> 30000000" "\<forall>i\<in>set [2, 0::int]. 0 \<le> i"
    "distinct (filter (\<lambda>i. i < nwords_m dict0) [2, 0])"
    by (simp_all add: dict0_def)
  from threshold_prune_invariant [OF insertion_sort_contract h i j,
      of 1 1 "\<lambda>m. m" 1024 None "\<lambda>_. 0"]
  show ?thesis by (simp add: threshold_raw prune_dict0)
qed

text \<open>
  Claim C3 as stated fails for \<^verbatim>\<open>prune\<close> when a word id is selected twice.  On the
  thresholded dictionary of the words a, b, \<^verbatim>\<open></s>\<close> and one label, with the selection
  0, 0, the loop keeps the word a and then waits for the id 0 again: no other word is
  kept, \<^verbatim>\<open>nwords_\<close> becomes 2, the number of selected ids, and the label is the second
  entry, before the word \<^verbatim>\<open></s>\<close> that \<^verbatim>\<open>erase\<close> leaves in the third place.
\<close>

theorem threshold_prune_invariant_counterexample:
  "prune (\<lambda>m. m) 30000000 1024 None (\<lambda>_. 0) dict0 [0, 0] = Some (dict_dup, [0, 0]) \<and>
   nwords_m dict_dup = 2 \<and>
   map type (words_m dict_dup) = [entry_word, entry_label, entry_word] \<and>
   \<not> grouped dict_dup"
proof -
  have "prune (\<lambda>m. m) 30000000 1024 None (\<lambda>_. 0) dict0 [0, 0] = Some (dict_dup, [0, 0])"
    by (simp add: prune_def prune_select_def prune_entries_def prune_loop.simps getType_def
        find_def find_loop.simps hashes dict0_def dict_dup_def Let_def)
  moreover have "\<not> grouped dict_dup"
    unfolding grouped_def
  proof
    assume "\<forall>i<length (words_m dict_dup).
      (int i < nwords_m dict_dup) = (type (words_m dict_dup ! i) = entry_word)"
    then have "(int 1 < nwords_m dict_dup) = (type (words_m dict_dup ! 1) = entry_word)"
      by (rule allE [of _ 1]) (simp add: dict_dup_def)
    then show False by (simp add: dict_dup_def)
  qed
  ultimately show ?thesis by (simp add: dict_dup_def)
qed

text \<open>
  A negative id in the selection has the same effect: the loop waits for it and keeps
  no word, while \<^verbatim>\<open>nwords_\<close> becomes 1.
\<close>

lemma prune_negative_id:
  "\<exists>d'. prune (\<lambda>m. m) 30000000 1024 None (\<lambda>_. 0) dict0 [- 1] = Some (d', [- 1]) \<and>
     nwords_m d' = 1 \<and> map type (words_m d') = [entry_label, entry_word]"
  by (simp add: prune_def prune_select_def prune_entries_def prune_loop.simps getType_def
      find_def find_loop.simps hashes dict0_def Let_def)

text \<open>
  \<^verbatim>\<open>prune\<close> keeps the order of the entries it keeps, so the order of the counts is as
  good as it was before the call: after \<^verbatim>\<open>add\<close> has counted the word b once more, the
  counts of the words are 1, 2, 1 before \<^verbatim>\<open>prune\<close> and after it.
\<close>

lemma prune_after_add:
  "\<exists>d d'. add 30000000 dict0 ''b'' = Some d \<and>
     prune (\<lambda>m. m) 30000000 1024 None (\<lambda>_. 0) d [0, 1, 2] = Some (d', [0, 1, 2]) \<and>
     map count (words_m d') = [1, 2, 1, 1] \<and> map type (words_m d') =
       [entry_word, entry_word, entry_word, entry_label]"
  by (simp add: add_def prune_def prune_select_def prune_entries_def prune_loop.simps getType_def
      find_def find_loop.simps hashes dict0_def Let_def)

lemma replay_ab:
  "replay 30000000 1024 dict0 [4] line_ab g (\<lambda>_. []) = Some ((\<lambda>_. [])(4 := [(152204, 1)]))"
proof -
  have a: "\<not> (eofbit line_ab \<or> length (buf line_ab) \<le> pos line_ab)"
    "eofbit line_ab_read \<or> length (buf line_ab_read) \<le> pos line_ab_read"
    "wordNgrams (args_m dict0) = 2"
    by (simp_all add: line_ab_def line_ab_read_def dict0_def args0_def)
  have e: "replay 30000000 1024 dict0 [4] line_ab_read g' cm = Some cm" for g' cm
    by (subst replay.simps) (simp only: a if_True)
  show ?thesis
    by (subst replay.simps) (simp add: a ids_ab ngrams_of_ids ngrams_of_hashes e)
qed

lemma prune_first:
  "prune (\<lambda>m. m) 30000000 1024 (Some corpus_ab) (\<lambda>_. 0) dict0 [0, 1, 2, 4] =
     Some (dict_once, [0, 1, 2, 4])"
proof -
  have s: "\<lparr>buf = corpus_ab, pos = 0, eofbit = False\<rparr> = line_ab"
    by (simp add: line_ab_def corpus_ab_def)
  have n: "nwords_m dict0 = 3" by (simp add: dict0_def)
  have c: "convertNgrams (\<lambda>m. m) 30000000 1024 (Some corpus_ab) (\<lambda>_. 0) dict0 [4] =
      Some (dict_once, [4])"
    unfolding convertNgrams_def by (simp only: option.case s replay_ab) (simp add: n dict_once_def)
  have p: "prune_entries 30000000 dict_once [0, 1, 2] = Some dict_once"
    by (simp add: prune_entries_def prune_loop.simps getType_def
      find_def find_loop.simps hashes dict0_def dict_once_def Let_def)
  show ?thesis
    by (simp add: prune_def prune_select_def n c p)
qed

lemma ids_ab_once:
  "getLine_ids 30000000 1024 dict_once line_ab g =
     Some ((3, [0, 1, 2], [- 468965076, - 418632219, - 677604519], [], snd (uniform (snd (uniform (snd (uniform g)))))), line_ab_read)"
proof -
  have a: "args_m dict_once = args0" by (simp add: dict_once_def dict0_def)
  show ?thesis
    unfolding getLine_ids_def a tokens_ab
    by (simp add: find_def find_loop.simps hashes getType_def discard_def
        dict_once_def dict0_def args0_def Let_def)
qed

lemma ngrams_once:
  "addNgrams dict_once [] [0, 1, 2] 2 = Some []"
  "addNgrams dict_once [] [- 468965076, - 418632219, - 677604519] 2 = Some [3]"
  by (simp_all add: addNgrams_def addNgrams_outer.simps addNgrams_inner.simps dict_once_def dict0_def
      args0_def Let_def to_int32_def)

lemma replay_once:
  "replay 30000000 1024 dict_once [4] line_ab g (\<lambda>_. []) = None"
proof -
  have a: "\<not> (eofbit line_ab \<or> length (buf line_ab) \<le> pos line_ab)"
    "wordNgrams (args_m dict_once) = 2"
    by (simp_all add: line_ab_def dict_once_def dict0_def args0_def)
  show ?thesis
    by (subst replay.simps) (simp add: a ids_ab_once ngrams_once)
qed

lemma prune_second:
  "prune (\<lambda>m. m) 30000000 1024 (Some corpus_ab) (\<lambda>_. 0) dict_once [0, 1, 2, 4] = None"
proof -
  have s: "\<lparr>buf = corpus_ab, pos = 0, eofbit = False\<rparr> = line_ab"
    by (simp add: line_ab_def corpus_ab_def)
  have n: "nwords_m dict_once = 3" by (simp add: dict0_def dict_once_def)
  have c: "convertNgrams (\<lambda>m. m) 30000000 1024 (Some corpus_ab) (\<lambda>_. 0) dict_once [4] = None"
    unfolding convertNgrams_def by (simp only: option.case s replay_once) simp
  show ?thesis
    by (simp add: prune_def prune_select_def n c)
qed

text \<open>
  The same \<^verbatim>\<open>assert\<close> stops a first run when a line of the corpus has a token that is not
  in the vocabulary: the token has a hash and no word id, so the two lists that
  \<^verbatim>\<open>convertNgrams\<close> compares differ in length.
\<close>

lemma prune_unknown_token:
  "prune (\<lambda>m. m) 30000000 1024 (Some corpus_azzb) (\<lambda>_. 0) dict0 [0, 1, 2, 4] = None"
proof -
  let ?s = "\<lparr>buf = corpus_azzb, pos = 0, eofbit = False\<rparr>"
  let ?s' = "\<lparr>buf = corpus_azzb, pos = 7, eofbit = False\<rparr>"
  have a: "args_m dict0 = args0" "nwords_m dict0 = 3" by (simp_all add: dict0_def)
  have t: "getLine_tokens 1024 args0 ?s = ([''a'', ''zz'', ''b'', ''</s>''], ?s')"
    by (simp add: getLine_tokens_def getLine_loop.simps readWord_def readWord_loop.simps
        is_delimiter_def Let_def EOS_def args0_def corpus_azzb_def)
  have i: "getLine_ids 30000000 1024 dict0 ?s (\<lambda>_. 0) =
      Some ((3, [0, 1, 2], [- 468965076, 1466432373, - 418632219, - 677604519], [], (\<lambda>_. 0)), ?s')"
    unfolding getLine_ids_def a t
    by (simp add: find_def find_loop.simps hashes getType_def discard_def uniform_def
        dict0_def args0_def Let_def)
  have n: "addNgrams dict0 [] [- 468965076, 1466432373, - 418632219, - 677604519] 2 =
      Some [1216796, 55167, 662851]"
    by (simp add: addNgrams_def addNgrams_outer.simps addNgrams_inner.simps dict0_def args0_def
        Let_def to_int32_def)
  have w: "wordNgrams (args_m dict0) = 2" "corpus_azzb \<noteq> []"
    by (simp_all add: dict0_def args0_def corpus_azzb_def)
  have "replay 30000000 1024 dict0 [4] ?s (\<lambda>_. 0) (\<lambda>_. []) = None"
    by (subst replay.simps) (simp add: w i ngrams_of_ids n)
  then have "convertNgrams (\<lambda>m. m) 30000000 1024 (Some corpus_azzb) (\<lambda>_. 0) dict0 [4] = None"
    by (simp add: convertNgrams_def)
  then show ?thesis
    by (simp add: prune_def prune_select_def a)
qed

text \<open>
  Claim C8 fails on the code: a second run of \<^verbatim>\<open>prune\<close> on the dictionary that the first
  run leaves does not produce a map.  The first run, on the words a, b and \<^verbatim>\<open></s>\<close> and
  the n-gram id 4 with the corpus \<^verbatim>\<open>a b\<close>, leaves the map with the one pair (152201, 0).
  \<^verbatim>\<open>convertNgrams\<close> clears \<^verbatim>\<open>quantidx_\<close> only after the replay, so the second run replays
  the corpus through that map: \<^verbatim>\<open>addNgrams\<close> keeps no id of the word ids and one id of the
  hashes, and the program stops at its own
  \<^verbatim>\<open>assert(newhashes.size() == oldhashes.size())\<close>.
\<close>

theorem prune_twice:
  "prune (\<lambda>m. m) 30000000 1024 (Some corpus_ab) (\<lambda>_. 0) dict0 [0, 1, 2, 4] =
     Some (dict_once, [0, 1, 2, 4]) \<and>
   quantidx_m dict_once = [(152201, 0)] \<and>
   prune (\<lambda>m. m) 30000000 1024 (Some corpus_ab) (\<lambda>_. 0) dict_once [0, 1, 2, 4] = None"
proof -
  have "quantidx_m dict_once = [(152201, 0)]" by (simp add: dict_once_def)
  with prune_first prune_second show ?thesis by simp
qed

subsection \<open>Saving and loading\<close>

lemma length_le_bytes [simp]: "length (le_bytes n v) = n"
  by (induction n arbitrary: v) simp_all

lemma le_nat_bytes: "le_nat (le_bytes n v) = v mod 256 ^ n"
proof (induction n arbitrary: v)
  case 0
  show ?case by simp
next
  case (Suc n)
  have "le_nat (le_bytes (Suc n) v) = v mod 256 + 256 * ((v div 256) mod 256 ^ n)"
    by (simp add: Suc)
  also have "\<dots> = v mod 256 ^ Suc n"
    by (simp add: mod_mult2_eq)
  finally show ?case .
qed

lemma read_int32_write:
  assumes "int32_range v"
  shows "read_int32 (write_int32 v) = v"
proof -
  have "le_nat (write_int32 v) = nat (v mod 2 ^ 32) mod 256 ^ 4"
    by (simp only: write_int32_def le_nat_bytes)
  also have "(256::nat) ^ 4 = 2 ^ 32" by simp
  also have "nat (v mod 2 ^ 32) mod 2 ^ 32 = nat (v mod 2 ^ 32)"
    by (simp add: nat_less_iff)
  finally have "int (le_nat (write_int32 v)) = v mod 2 ^ 32" by simp
  then have "read_int32 (write_int32 v) = sint (word_of_int (v mod 2 ^ 32) :: 32 word)"
    by (simp add: read_int32_def to_int32_def)
  also have "(word_of_int (v mod 2 ^ 32) :: 32 word) = word_of_int v"
    by (simp add: word_of_int_eq_iff take_bit_eq_mod)
  also have "sint (word_of_int v :: 32 word) = v"
    using assms by (simp add: int32_range_def sint_sbintrunc' signed_take_bit_int_eq_self)
  finally show ?thesis .
qed

lemma read_int64_write:
  assumes "int64_range v"
  shows "read_int64 (write_int64 v) = v"
proof -
  have "le_nat (write_int64 v) = nat (v mod 2 ^ 64) mod 256 ^ 8"
    by (simp only: write_int64_def le_nat_bytes)
  also have "(256::nat) ^ 8 = 2 ^ 64" by simp
  also have "nat (v mod 2 ^ 64) mod 2 ^ 64 = nat (v mod 2 ^ 64)"
    by (simp add: nat_less_iff)
  finally have "int (le_nat (write_int64 v)) = v mod 2 ^ 64" by simp
  then have "read_int64 (write_int64 v) = sint (word_of_int (v mod 2 ^ 64) :: 64 word)"
    by (simp add: read_int64_def to_int64_def)
  also have "(word_of_int (v mod 2 ^ 64) :: 64 word) = word_of_int v"
    by (simp add: word_of_int_eq_iff take_bit_eq_mod)
  also have "sint (word_of_int v :: 64 word) = v"
    using assms by (simp add: int64_range_def sint_sbintrunc' signed_take_bit_int_eq_self)
  finally show ?thesis .
qed

lemma read_type_write:
  assumes "0 < tw"
  shows "read_type (write_type tw ty) = Some ty"
proof -
  have "(256::nat) ^ 1 \<le> 256 ^ tw" using assms by (intro power_increasing) simp_all
  then have "type_rank ty < 256 ^ tw" by (simp add: type_rank_def split: entry_type.splits)
  then have "le_nat (write_type tw ty) = type_rank ty"
    by (simp add: write_type_def le_nat_bytes)
  then show ?thesis by (cases ty) (simp_all add: read_type_def type_rank_def)
qed

lemma read_append: "length xs = n \<Longrightarrow> read n (xs @ rest) = Some (xs, rest)"
  by (simp add: read_def)

lemma read_cstr_append:
  "CHR 0x00 \<notin> set w \<Longrightarrow> read_cstr (w @ CHR 0x00 # rest) = Some (w, rest)"
  by (induction w) auto

lemma length_write [simp]:
  "length (write_int32 v) = 4" "length (write_int64 v) = 8" "length (write_type tw ty) = tw"
  by (simp_all add: write_int32_def write_int64_def write_type_def)

lemma save_loop_entries:
  assumes "size_m d \<le> int (length (words_m d))"
  shows "save_loop tw d i out =
           Some (out @ concat (map (entry_bytes tw) (drop i (take (nat (size_m d)) (words_m d)))))"
  using assms
proof (induction tw d i out rule: save_loop.induct)
  case (1 tw d i out)
  show ?case
  proof (cases "int i < size_m d")
    case False
    then show ?thesis by (simp add: save_loop.simps [of tw d i out])
  next
    case True
    with "1.prems" have l: "i < length (words_m d)" "i < length (take (nat (size_m d)) (words_m d))"
      by simp_all
    have "drop i (take (nat (size_m d)) (words_m d)) =
        words_m d ! i # drop (Suc i) (take (nat (size_m d)) (words_m d))"
      using l by (simp add: Cons_nth_drop_Suc [symmetric])
    moreover have "save_loop tw d i out = save_loop tw d (i + 1) (out @ entry_bytes tw (words_m d ! i))"
      using True l by (subst save_loop.simps) (simp add: entry_bytes_def Let_def)
    ultimately show ?thesis
      using "1.IH" [OF True l(1) refl "1.prems"] by (simp add: entry_bytes_def)
  qed
qed

lemma read_written [simp]:
  "read 4 (write_int32 v @ r) = Some (write_int32 v, r)"
  "read 8 (write_int64 v @ r) = Some (write_int64 v, r)"
  "read tw (write_type tw ty @ r) = Some (write_type tw ty, r)"
  "read n (le_bytes n k @ r) = Some (le_bytes n k, r)"
  by (simp_all add: read_append)

lemma bare_eq: "\<lparr>word = word e, count = count e, type = type e, subwords = []\<rparr> = bare e"
  by (cases e) (simp add: bare_def)

lemma load_loop_entries:
  assumes "0 < cap" and "0 < tw"
    and "\<forall>e\<in>set es. CHR 0x00 \<notin> set (word e) \<and> int64_range (count e)"
    and "size_m d = int (length (words_m d) + length es)"
    and "i = length (words_m d)"
    and "length (words_m d) + length es \<le> cap"
    and "\<forall>h<cap. word2int_m d h = - 1 \<or>
           (0 \<le> word2int_m d h \<and> word2int_m d h < int (length (words_m d)))"
    and "card (occupied cap d) \<le> length (words_m d)"
  shows "\<exists>d'. load_loop cap tw d i (concat (map (entry_bytes tw) es) @ rest) = Some (d', rest) \<and>
           words_m d' = words_m d @ map bare es \<and>
           args_m d' = args_m d \<and> size_m d' = size_m d \<and> nwords_m d' = nwords_m d \<and>
           nlabels_m d' = nlabels_m d \<and> ntokens_m d' = ntokens_m d \<and>
           pdiscard_m d' = pdiscard_m d \<and> quant_m d' = quant_m d \<and>
           quantidx_m d' = quantidx_m d"
  using assms(3-)
proof (induction es arbitrary: d i)
  case Nil
  then show ?case by (subst load_loop.simps) simp
next
  case (Cons e es)
  note ok = Cons.prems(1) and sz = Cons.prems(2) and i = Cons.prems(3) and cp = Cons.prems(4)
    and rg = Cons.prems(5) and cd = Cons.prems(6)
  let ?e = "\<lparr>word = word e, count = read_int64 (write_int64 (count e)), type = type e,
              subwords = []\<rparr>"
  define d1 where "d1 = d\<lparr>words_m := words_m d @ [?e]\<rparr>"
  have e: "?e = bare e"
    using ok by (simp add: read_int64_write bare_eq)
  have r1: "\<forall>h<cap. word2int_m d1 h = - 1 \<or>
           (0 \<le> word2int_m d1 h \<and> word2int_m d1 h < int (length (words_m d1)))"
    using rg by (auto simp: d1_def)
  have "occupied cap d1 = occupied cap d" by (simp add: occupied_def d1_def)
  with cd cp have "card (occupied cap d1) < cap" by simp
  then have "has_empty_slot cap d1" by (rule empty_slot_card)
  from find_returns [OF assms(1) r1 this, of "word e"]
  obtain h where h: "find cap d1 (word e) = Some h" by blast
  define d2 where "d2 = d\<lparr>words_m := words_m d @ [?e], word2int_m := (word2int_m d)(h := int i)\<rparr>"
  have d2: "d2 = d1\<lparr>word2int_m := (word2int_m d1)(h := int i)\<rparr>"
    by (simp add: d1_def d2_def)
  have "card (occupied cap d2) \<le> Suc (card (occupied cap d1))"
    unfolding d2 by (rule occupied_update)
  with cd \<open>occupied cap d1 = occupied cap d\<close> have c2: "card (occupied cap d2) \<le> length (words_m d2)"
    by (simp add: d2_def)
  have r2: "\<forall>h<cap. word2int_m d2 h = - 1 \<or>
           (0 \<le> word2int_m d2 h \<and> word2int_m d2 h < int (length (words_m d2)))"
    using rg i by (auto simp: d2_def)
  have "\<exists>d'. load_loop cap tw d2 (i + 1) (concat (map (entry_bytes tw) es) @ rest) = Some (d', rest) \<and>
           words_m d' = words_m d2 @ map bare es \<and>
           args_m d' = args_m d2 \<and> size_m d' = size_m d2 \<and> nwords_m d' = nwords_m d2 \<and>
           nlabels_m d' = nlabels_m d2 \<and> ntokens_m d' = ntokens_m d2 \<and>
           pdiscard_m d' = pdiscard_m d2 \<and> quant_m d' = quant_m d2 \<and>
           quantidx_m d' = quantidx_m d2"
    using ok sz i cp by (intro Cons.IH r2 c2) (simp_all add: d2_def)
  then obtain d' where d': "load_loop cap tw d2 (i + 1) (concat (map (entry_bytes tw) es) @ rest) = Some (d', rest)"
    "words_m d' = words_m d2 @ map bare es"
    "args_m d' = args_m d2" "size_m d' = size_m d2" "nwords_m d' = nwords_m d2"
    "nlabels_m d' = nlabels_m d2" "ntokens_m d' = ntokens_m d2"
    "pdiscard_m d' = pdiscard_m d2" "quant_m d' = quant_m d2" "quantidx_m d' = quantidx_m d2"
    by blast
  have c: "read_cstr (word e @ CHR 0x00 # write_int64 (count e) @ write_type tw (type e) @
               concat (map (entry_bytes tw) es) @ rest) =
           Some (word e, write_int64 (count e) @ write_type tw (type e) @
               concat (map (entry_bytes tw) es) @ rest)"
    using ok by (intro read_cstr_append) simp
  have "load_loop cap tw d i (concat (map (entry_bytes tw) (e # es)) @ rest) =
      load_loop cap tw d2 (i + 1) (concat (map (entry_bytes tw) es) @ rest)"
    using sz i h
    by (subst load_loop.simps)
       (simp add: entry_bytes_def c read_type_write [OF assms(2)] d1_def d2_def)
  with d' show ?case
    by (intro exI [of _ d']) (simp add: d2_def e)
qed

lemma load_pairs_saved:
  "\<exists>q'. load_pairs (length q) q0 (save_pairs q @ rest) = Some (q', rest)"
proof (induction q arbitrary: q0)
  case Nil
  show ?case by simp
next
  case (Cons p q)
  obtain k v where p: "p = (k, v)" by (cases p)
  from Cons [of "qput (read_int32 (write_int32 k)) (read_int32 (write_int32 v)) q0"]
  show ?case by (simp add: p)
qed

lemma load_quant_saved:
  assumes "length q < 2 ^ 31"
  shows "\<exists>q'. load_quant d (if quant_m d then le_bytes 8 (length q) @ save_pairs q else []) =
           Some (d\<lparr>quantidx_m := q'\<rparr>, [])"
proof (cases "quant_m d")
  case False
  then show ?thesis by (intro exI [of _ "quantidx_m d"]) (simp add: load_quant_def)
next
  case True
  have "length q < 256 ^ 8" using assms by simp
  then have n: "le_nat (le_bytes 8 (length q)) = length q"
    by (simp only: le_nat_bytes mod_less)
  from load_pairs_saved [of q "quantidx_m d" "[]"] obtain q' where
    "load_pairs (length q) (quantidx_m d) (save_pairs q) = Some (q', [])" by auto
  with True assms show ?thesis
    by (intro exI [of _ q']) (simp add: load_quant_def n)
qed

lemma ngram_loop_cong:
  assumes "minn a = minn b" and "maxn a = maxn b" and "bucket a = bucket b"
  shows "ngram_loop a nw w i j n ngram ngrams = ngram_loop b nw w i j n ngram ngrams"
  using assms
proof (induction a nw w i j n ngram ngrams rule: ngram_loop.induct)
  case (1 a nw w i j n ngram ngrams)
  note ab = "1.prems"
  note sa = ngram_loop.simps [of a nw w i j n ngram ngrams]
    and sb = ngram_loop.simps [of b nw w i j n ngram ngrams]
  have id: "ngram_id a nw s = ngram_id b nw s" for s
    using ab by (simp add: ngram_id_def)
  show ?case
  proof (cases "j < length w \<and> n \<le> size_t_of (maxn a)")
    case False
    with ab have "\<not> (j < length w \<and> n \<le> size_t_of (maxn b))" by simp
    with False show ?thesis
      by (simp only: sa sb if_False)
  next
    case True
    with ab have Tb: "j < length w \<and> n \<le> size_t_of (maxn b)" by simp
    obtain j' ngram' where c: "cont_loop w (j + 1) (ngram @ [w ! j]) = (j', ngram')"
      by (cases "cont_loop w (j + 1) (ngram @ [w ! j])")
    show ?thesis
    proof (cases "size_t_of (minn a) \<le> n \<and> \<not> (n = 1 \<and> (i = 0 \<or> j' = length w))")
      case k: True
      with ab have kb: "size_t_of (minn b) \<le> n \<and> \<not> (n = 1 \<and> (i = 0 \<or> j' = length w))"
        by simp
      show ?thesis
      proof (cases "bucket a = 0")
        case z: True
        with ab have zb: "bucket b = 0" by simp
        have "ngram_loop a nw w i j n ngram ngrams = None"
          by (subst sa) (simp only: True if_True c prod.case k z simp_thms)
        moreover have "ngram_loop b nw w i j n ngram ngrams = None"
          by (subst sb) (simp only: Tb if_True c prod.case kb zb simp_thms)
        ultimately show ?thesis by simp
      next
        case z: False
        with ab have zb: "bucket b \<noteq> 0" by simp
        from "1.IH"(1) [OF True c [symmetric] k z ab]
        have ih: "ngram_loop a nw w i j' (n + 1) ngram' (ngrams @ [ngram_id a nw ngram']) =
              ngram_loop b nw w i j' (n + 1) ngram' (ngrams @ [ngram_id a nw ngram'])" .
        have "ngram_loop a nw w i j n ngram ngrams =
            ngram_loop a nw w i j' (n + 1) ngram' (ngrams @ [ngram_id a nw ngram'])"
          by (subst sa) (simp only: True if_True c prod.case k z if_False simp_thms)
        moreover have "ngram_loop b nw w i j n ngram ngrams =
            ngram_loop b nw w i j' (n + 1) ngram' (ngrams @ [ngram_id b nw ngram'])"
          by (subst sb) (simp only: Tb if_True c prod.case kb zb if_False simp_thms)
        ultimately show ?thesis using ih by (simp only: id)
      qed
    next
      case k: False
      with ab have kb: "\<not> (size_t_of (minn b) \<le> n \<and> \<not> (n = 1 \<and> (i = 0 \<or> j' = length w)))"
        by simp
      from "1.IH"(2) [OF True c [symmetric] k ab]
      have ih: "ngram_loop a nw w i j' (n + 1) ngram' ngrams =
            ngram_loop b nw w i j' (n + 1) ngram' ngrams" .
      have "ngram_loop a nw w i j n ngram ngrams = ngram_loop a nw w i j' (n + 1) ngram' ngrams"
        by (subst sa) (simp only: True if_True c prod.case k if_False simp_thms)
      moreover have "ngram_loop b nw w i j n ngram ngrams = ngram_loop b nw w i j' (n + 1) ngram' ngrams"
        by (subst sb) (simp only: Tb if_True c prod.case kb if_False simp_thms)
      ultimately show ?thesis using ih by simp
    qed
  qed
qed

lemma computeNgrams_loop_cong:
  assumes "minn a = minn b" and "maxn a = maxn b" and "bucket a = bucket b"
  shows "computeNgrams_loop a nw w i ngrams = computeNgrams_loop b nw w i ngrams"
  using assms
proof (induction a nw w i ngrams rule: computeNgrams_loop.induct)
  case (1 a nw w i ngrams)
  note ab = "1.prems"
  show ?case
  proof (cases "i < length w")
    case False
    then show ?thesis
      by (simp add: computeNgrams_loop.simps [of a nw w i ngrams] computeNgrams_loop.simps [of b nw w i ngrams])
  next
    case True
    show ?thesis
    proof (cases "is_continuation (w ! i)")
      case c: True
      from "1.IH"(1) [OF True c ab] True c show ?thesis
        by (simp add: computeNgrams_loop.simps [of a nw w i ngrams] computeNgrams_loop.simps [of b nw w i ngrams])
    next
      case c: False
      have n: "ngram_loop a nw w i i 1 [] ngrams = ngram_loop b nw w i i 1 [] ngrams"
        by (rule ngram_loop_cong [OF ab])
      show ?thesis
      proof (cases "ngram_loop a nw w i i 1 [] ngrams")
        case None
        with n True c show ?thesis
          by (simp add: computeNgrams_loop.simps [of a nw w i ngrams] computeNgrams_loop.simps [of b nw w i ngrams])
      next
        case (Some ngrams')
        from "1.IH"(2) [OF True c Some ab] n True c Some show ?thesis
          by (simp add: computeNgrams_loop.simps [of a nw w i ngrams] computeNgrams_loop.simps [of b nw w i ngrams])
      qed
    qed
  qed
qed

lemma initNgrams_loop_cong:
  assumes "minn (args_m d1) = minn (args_m d2)" and "maxn (args_m d1) = maxn (args_m d2)"
    and "bucket (args_m d1) = bucket (args_m d2)" and "nwords_m d1 = nwords_m d2"
    and "size_m d1 = size_m d2" and "words_m d1 = words_m d2"
  shows "map_option words_m (initNgrams_loop d1 i) = map_option words_m (initNgrams_loop d2 i)"
  using assms
proof (induction d1 i arbitrary: d2 rule: initNgrams_loop.induct)
  case (1 d1 i)
  note ab = "1.prems"
  show ?case
  proof (cases "int i < size_m d1 \<and> i < length (words_m d1)")
    case False
    with ab show ?thesis
      by (auto simp: initNgrams_loop.simps [of d1 i] initNgrams_loop.simps [of d2 i])
  next
    case True
    let ?w = "BOW @ word (words_m d1 ! i) @ EOW"
    let ?s = "subwords (words_m d1 ! i) @ [int i]"
    have c: "computeNgrams d1 ?w ?s = computeNgrams d2 ?w ?s"
      using ab by (simp add: computeNgrams_def computeNgrams_loop_cong [OF ab(1-3)])
    show ?thesis
    proof (cases "computeNgrams d1 ?w ?s")
      case None
      with c True ab show ?thesis
        by (simp add: initNgrams_loop.simps [of d1 i] initNgrams_loop.simps [of d2 i])
    next
      case (Some sw)
      let ?u = "\<lambda>d. d\<lparr>words_m := (words_m d)[i := (words_m d ! i)\<lparr>subwords := sw\<rparr>]\<rparr>"
      have "map_option words_m (initNgrams_loop (?u d1) (i + 1)) =
            map_option words_m (initNgrams_loop (?u d2) (i + 1))"
        using True Some ab by (intro "1.IH") simp_all
      with c True ab Some show ?thesis
        by (simp add: initNgrams_loop.simps [of d1 i] initNgrams_loop.simps [of d2 i])
    qed
  qed
qed

lemma le_bytes_1: "le_bytes (Suc 0) v = [char_of (v mod 256)]"
  by simp

lemma le_bytes_4:
  "le_bytes 4 v = char_of (v mod 256) # char_of (v div 256 mod 256) #
     char_of (v div 256 div 256 mod 256) # [char_of (v div 256 div 256 div 256 mod 256)]"
proof -
  have "le_bytes (Suc (Suc (Suc (Suc 0)))) v = char_of (v mod 256) # char_of (v div 256 mod 256) #
     char_of (v div 256 div 256 mod 256) # [char_of (v div 256 div 256 div 256 mod 256)]"
    by simp
  moreover have "(4::nat) = Suc (Suc (Suc (Suc 0)))" by simp
  ultimately show ?thesis by (simp only:)
qed

lemma le_bytes_8: "le_bytes 8 v = le_bytes 4 v @ le_bytes 4 (v div 256 div 256 div 256 div 256)"
proof -
  have "le_bytes (Suc (Suc (Suc (Suc n)))) v =
      le_bytes (Suc (Suc (Suc (Suc 0)))) v @ le_bytes n (v div 256 div 256 div 256 div 256)" for n
    by simp
  from this [of 4] have "le_bytes (Suc (Suc (Suc (Suc 4)))) v =
      le_bytes (Suc (Suc (Suc (Suc 0)))) v @ le_bytes 4 (v div 256 div 256 div 256 div 256)" .
  moreover have "(4::nat) = Suc (Suc (Suc (Suc 0)))" "(8::nat) = Suc (Suc (Suc (Suc 4)))" by simp_all
  ultimately show ?thesis by (simp only:)
qed

lemma some_bytes:
  "char_of (0::nat) = CHR 0x00" "char_of (Suc 0) = CHR 0x01" "char_of (2::nat) = CHR 0x02"
  "char_of (3::nat) = CHR 0x03"
  using char_of_char [of "CHR 0x00", where ?'a = nat] char_of_char [of "CHR 0x01", where ?'a = nat]
    char_of_char [of "CHR 0x02", where ?'a = nat] char_of_char [of "CHR 0x03", where ?'a = nat]
  by (simp_all add: eval_nat_numeral)

lemma written_small:
  "write_int32 0 = [CHR 0x00, CHR 0x00, CHR 0x00, CHR 0x00]"
  "write_int32 1 = [CHR 0x01, CHR 0x00, CHR 0x00, CHR 0x00]"
  "write_int32 2 = [CHR 0x02, CHR 0x00, CHR 0x00, CHR 0x00]"
  "write_int64 1 = [CHR 0x01, CHR 0x00, CHR 0x00, CHR 0x00, CHR 0x00, CHR 0x00, CHR 0x00, CHR 0x00]"
  "write_int64 2 = [CHR 0x02, CHR 0x00, CHR 0x00, CHR 0x00, CHR 0x00, CHR 0x00, CHR 0x00, CHR 0x00]"
  "write_int64 3 = [CHR 0x03, CHR 0x00, CHR 0x00, CHR 0x00, CHR 0x00, CHR 0x00, CHR 0x00, CHR 0x00]"
  "write_type (Suc 0) entry_word = [CHR 0x00]"
  by (simp_all add: write_int32_def write_int64_def write_type_def type_rank_def
      le_bytes_4 le_bytes_8 some_bytes)

lemma hashes_ab: "hash ''<a>'' = 2359087600" "hash ''<b>'' = 2392495743"
  by (simp_all add: hash_def hash_loop.simps uint32_t_def schar_def)

lemma initTableDiscard_returns:
  assumes "size_m d = int (length (words_m d))"
  shows "\<exists>p. initTableDiscard d = Some (d\<lparr>pdiscard_m := p\<rparr>)"
  using assms by (auto simp: initTableDiscard_def)

lemma save_bytes:
  assumes "size_m d = int (length (words_m d))"
  shows "save tw iter d =
    Some (write_int32 (size_m d) @ write_int32 (nwords_m d) @ write_int32 (nlabels_m d) @
          write_int64 (ntokens_m d) @ concat (map (entry_bytes tw) (words_m d)) @
          (if quant_m d then le_bytes 8 (length (quantidx_m d)) @ save_pairs (iter (quantidx_m d))
           else []))"
proof -
  have "size_m d \<le> int (length (words_m d))" using assms by simp
  from save_loop_entries [OF this, of tw 0] assms show ?thesis
    by (simp add: save_def)
qed

lemma load_quant_saved':
  assumes "length q < 2 ^ 31" and "quant_m d \<longrightarrow> w"
  shows "\<exists>q' rest. load_quant d (if w then le_bytes 8 (length q) @ save_pairs q else []) =
           Some (d\<lparr>quantidx_m := q'\<rparr>, rest)"
proof (cases "quant_m d")
  case False
  then show ?thesis by (intro exI [of _ "quantidx_m d"]) (simp add: load_quant_def)
next
  case True
  with assms(2) have w by simp
  with load_quant_saved [OF assms(1), of d] True show ?thesis by auto
qed

text \<open>
  \<^verbatim>\<open>load\<close> on the bytes that \<^verbatim>\<open>save\<close> wrote, into a dictionary \<open>l\<close> of the same \<open>minn\<close>,
  \<open>maxn\<close> and \<open>bucket\<close> that expects the map of the quantization only if it was written:
  it returns the entries that \<^verbatim>\<open>initNgrams\<close> computes from the saved entries without
  their caches.
\<close>

lemma load_saved:
  assumes st: "storable cap d" and cap: "0 < cap" and tw: "0 < tw"
    and it: "mset (iter (quantidx_m d)) = mset (quantidx_m d)"
    and ar: "minn (args_m l) = minn (args_m d)" "maxn (args_m l) = maxn (args_m d)"
      "bucket (args_m l) = bucket (args_m d)"
    and qu: "quant_m l \<longrightarrow> quant_m d"
    and ng: "initNgrams (uncached d) = Some r"
  shows "\<exists>bytes d' rest. save tw iter d = Some bytes \<and> load cap tw l bytes = Some (d', rest) \<and>
           words_m d' = words_m r"
proof -
  let ?ws = "words_m d"
  let ?Q = "if quant_m d then le_bytes 8 (length (quantidx_m d)) @ save_pairs (iter (quantidx_m d))
            else []"
  from st [unfolded storable_def list_all_iff] have sz: "size_m d = int (length ?ws)"
    and len: "length ?ws \<le> cap"
    and rg: "int32_range (size_m d)" "int32_range (nwords_m d)" "int32_range (nlabels_m d)"
      "int64_range (ntokens_m d)"
    and ok: "\<forall>e\<in>set ?ws. CHR 0x00 \<notin> set (word e) \<and> int64_range (count e)"
    and ql: "length (quantidx_m d) < 2 ^ 31"
    by blast+
  define d0 where "d0 = l\<lparr>words_m := [], word2int_m := (\<lambda>_. - 1), size_m := size_m d,
          nwords_m := nwords_m d, nlabels_m := nlabels_m d, ntokens_m := ntokens_m d\<rparr>"
  have "\<exists>d'. load_loop cap tw d0 0 (concat (map (entry_bytes tw) ?ws) @ ?Q) = Some (d', ?Q) \<and>
           words_m d' = words_m d0 @ map bare ?ws \<and>
           args_m d' = args_m d0 \<and> size_m d' = size_m d0 \<and> nwords_m d' = nwords_m d0 \<and>
           nlabels_m d' = nlabels_m d0 \<and> ntokens_m d' = ntokens_m d0 \<and>
           pdiscard_m d' = pdiscard_m d0 \<and> quant_m d' = quant_m d0 \<and>
           quantidx_m d' = quantidx_m d0"
    by (rule load_loop_entries [OF cap tw ok])
       (simp_all add: d0_def sz len occupied_def)
  then obtain d1 where d1: "load_loop cap tw d0 0 (concat (map (entry_bytes tw) ?ws) @ ?Q) = Some (d1, ?Q)"
    "words_m d1 = map bare ?ws" "args_m d1 = args_m l" "size_m d1 = size_m d"
    "nwords_m d1 = nwords_m d" "quant_m d1 = quant_m l"
    by (auto simp: d0_def)
  have li: "length (iter (quantidx_m d)) = length (quantidx_m d)"
    using it by (rule mset_eq_length)
  have "quant_m d1 \<longrightarrow> quant_m d" using d1(6) qu by simp
  from load_quant_saved' [of "iter (quantidx_m d)" d1 "quant_m d", unfolded li, OF ql this]
  obtain q' rest where q': "load_quant d1 ?Q = Some (d1\<lparr>quantidx_m := q'\<rparr>, rest)"
    by blast
  let ?d2 = "d1\<lparr>quantidx_m := q'\<rparr>"
  from initTableDiscard_returns [of ?d2] d1 sz obtain p where
    p: "initTableDiscard ?d2 = Some (?d2\<lparr>pdiscard_m := p\<rparr>)"
    by auto
  let ?d3 = "?d2\<lparr>pdiscard_m := p\<rparr>"
  have "map_option words_m (initNgrams_loop ?d3 0) =
        map_option words_m (initNgrams_loop (uncached d) 0)"
    by (rule initNgrams_loop_cong) (simp_all add: d1 ar uncached_def)
  with ng obtain d4 where d4: "initNgrams ?d3 = Some d4" "words_m d4 = words_m r"
    by (auto simp: initNgrams_def)
  have "load cap tw l (write_int32 (size_m d) @ write_int32 (nwords_m d) @ write_int32 (nlabels_m d) @
          write_int64 (ntokens_m d) @ concat (map (entry_bytes tw) ?ws) @ ?Q) = Some (d4, rest)"
    unfolding load_def
    by (simp only: read_written bind.bind_lunit prod.case read_int32_write [OF rg(1)]
        read_int32_write [OF rg(2)] read_int32_write [OF rg(3)] read_int64_write [OF rg(4)]
        d1(1) [unfolded d0_def] q' p d4(1))
  with save_bytes [OF sz, of tw iter] d4(2) show ?thesis by blast
qed

text \<open>
  For a finalized dictionary these are the saved entries themselves: the same words,
  counts and types in the same order, with the same subwords.
\<close>

lemma load_saved_finalized:
  assumes "finalized cap d" and "0 < cap" and "0 < tw"
    and "mset (iter (quantidx_m d)) = mset (quantidx_m d)"
    and "minn (args_m l) = minn (args_m d)" and "maxn (args_m l) = maxn (args_m d)"
    and "bucket (args_m l) = bucket (args_m d)"
    and "quant_m l \<longrightarrow> quant_m d"
  shows "\<exists>bytes d' rest. save tw iter d = Some bytes \<and> load cap tw l bytes = Some (d', rest) \<and>
           words_m d' = words_m d"
proof -
  from assms(1) obtain r where r: "initNgrams (uncached d) = Some r" "words_m r = words_m d"
    and st: "storable cap d"
    by (auto simp: finalized_def)
  from load_saved [of cap d tw iter l r, OF st assms(2-8) r(1)] r(2) show ?thesis by simp
qed

lemma bare_update [simp]: "bare (e\<lparr>subwords := sw\<rparr>) = bare e"
  by (simp add: bare_def)

lemma initNgrams_loop_fields:
  assumes "initNgrams_loop d i = Some d'"
  shows "map bare (words_m d') = map bare (words_m d) \<and>
         args_m d' = args_m d \<and> size_m d' = size_m d \<and> nwords_m d' = nwords_m d \<and>
         nlabels_m d' = nlabels_m d \<and> ntokens_m d' = ntokens_m d \<and>
         quantidx_m d' = quantidx_m d"
  using assms
proof (induction d i rule: initNgrams_loop.induct)
  case (1 d i)
  show ?case
  proof (cases "int i < size_m d")
    case False
    with "1.prems" show ?thesis by (simp add: initNgrams_loop.simps [of d i])
  next
    case True
    with "1.prems" have l: "i < length (words_m d)"
      by (subst (asm) initNgrams_loop.simps) (simp split: if_splits)
    with "1.prems" True obtain sw where
      sw: "computeNgrams d (BOW @ word (words_m d ! i) @ EOW) (subwords (words_m d ! i) @ [int i]) = Some sw"
      and r: "initNgrams_loop (d\<lparr>words_m := (words_m d)[i := (words_m d ! i)\<lparr>subwords := sw\<rparr>]\<rparr>) (i + 1) = Some d'"
      by (subst (asm) initNgrams_loop.simps) (auto split: bind_splits)
    have "map bare ((words_m d)[i := (words_m d ! i)\<lparr>subwords := sw\<rparr>]) = map bare (words_m d)"
      using l by (simp add: map_update list_update_same_conv)
    with "1.IH" [OF True l sw r] show ?thesis by simp
  qed
qed

lemma set_kept:
  assumes "std_sort_contract srt"
  shows "set (kept srt t tlab ws) \<subseteq> set ws"
proof -
  from assms have "mset (srt ws) = mset ws" by (simp add: std_sort_contract_def)
  then have "set (srt ws) = set ws" by (rule mset_eq_setD)
  then show ?thesis by (auto simp: kept_def)
qed

lemma readFromFile_end_finalized:
  assumes srt: "std_sort_contract srt" and cap: "0 < cap" "cap < 2 ^ 31"
    and len: "length (words_m d) \<le> cap"
    and fresh: "\<forall>e\<in>set (words_m d). subwords e = [] \<and> CHR 0x00 \<notin> set (word e) \<and> int64_range (count e)"
    and nt: "int64_range (ntokens_m d)" and ql: "length (quantidx_m d) < 2 ^ 31"
    and res: "readFromFile_end srt cap t tlab d = Some d'"
  shows "finalized cap d'"
proof -
  from threshold_spec [OF srt cap(1) len, of t tlab] obtain d1 where
    d1: "threshold srt cap t tlab d = Some d1" "words_m d1 = kept srt t tlab (words_m d)"
      "size_m d1 = int (length (words_m d1))"
      "nwords_m d1 = int (length (filter (\<lambda>e. type e = entry_word) (words_m d1)))"
      "nlabels_m d1 = int (length (filter (\<lambda>e. type e = entry_label) (words_m d1)))"
      "ntokens_m d1 = ntokens_m d" "quantidx_m d1 = quantidx_m d"
    by blast
  from initTableDiscard_returns [OF d1(3)] obtain p where
    p: "initTableDiscard d1 = Some (d1\<lparr>pdiscard_m := p\<rparr>)" ..
  let ?d2 = "d1\<lparr>pdiscard_m := p\<rparr>"
  from res d1(1) p have d3: "initNgrams_loop ?d2 0 = Some d'"
    by (simp add: readFromFile_end_def initNgrams_def split: bind_splits if_splits)
  note f = initNgrams_loop_fields [OF d3]
  have l1: "length (words_m d1) \<le> length (words_m d)"
    unfolding d1(2) by (rule length_kept [OF srt])
  have s1: "set (words_m d1) \<subseteq> set (words_m d)"
    unfolding d1(2) by (rule set_kept [OF srt])
  have "bare e = e" if "e \<in> set (words_m d1)" for e
  proof -
    from that s1 fresh have "subwords e = []" by blast
    then show ?thesis by (cases e) (simp add: bare_def)
  qed
  then have b1: "map bare (words_m d1) = words_m d1"
    by (intro map_idI)
  from f have mb: "map bare (words_m d') = words_m d1" by (simp add: b1)
  then have ll: "length (words_m d') = length (words_m d1)"
    by (metis length_map)
  have w: "word ` set (words_m d') = word ` set (words_m d1)" "count ` set (words_m d') = count ` set (words_m d1)"
  proof -
    have "map word (map bare (words_m d')) = map word (words_m d')"
      "map count (map bare (words_m d')) = map count (words_m d')"
      by (simp_all add: bare_def)
    with mb have "map word (words_m d') = map word (words_m d1)"
      "map count (words_m d') = map count (words_m d1)" by simp_all
    then show "word ` set (words_m d') = word ` set (words_m d1)"
      "count ` set (words_m d') = count ` set (words_m d1)"
      by (metis set_map)+
  qed
  have ok: "list_all (\<lambda>e. CHR 0x00 \<notin> set (word e) \<and> int64_range (count e)) (words_m d')"
    unfolding list_all_iff
  proof
    fix e assume "e \<in> set (words_m d')"
    then have "word e \<in> word ` set (words_m d1)" "count e \<in> count ` set (words_m d1)"
      using w by blast+
    with s1 fresh show "CHR 0x00 \<notin> set (word e) \<and> int64_range (count e)" by auto
  qed
  have lt: "length (words_m d1) < 2 ^ 31" using l1 len cap(2) by simp
  have "length (filter (\<lambda>e. type e = entry_word) (words_m d1)) < 2 ^ 31"
    "length (filter (\<lambda>e. type e = entry_label) (words_m d1)) < 2 ^ 31"
    by (rule order.strict_trans1 [OF length_filter_le lt])+
  with lt have r: "int32_range (size_m d1)" "int32_range (nwords_m d1)"
    "int32_range (nlabels_m d1)"
    unfolding d1(3,4,5) int32_range_def by simp_all
  have "map_option words_m (initNgrams_loop (uncached d') 0) =
        map_option words_m (initNgrams_loop ?d2 0)"
    by (rule initNgrams_loop_cong) (simp_all add: f mb b1 uncached_def)
  then have ng: "map_option words_m (initNgrams (uncached d')) = Some (words_m d')"
    by (simp add: initNgrams_def d3)
  have "storable cap d'"
    unfolding storable_def
    using f ll l1 len r nt ql ok d1(3,6,7) by simp
  with ng show ?thesis by (simp add: finalized_def)
qed

lemma read_aab:
  "add_tokens 30000000 (Dictionary args0) [''a'', ''a'', ''b''] =
     Some \<lparr>args_m = args0,
       words_m = [\<lparr>word = ''a'', count = 2, type = entry_word, subwords = []\<rparr>,
                  \<lparr>word = ''b'', count = 1, type = entry_word, subwords = []\<rparr>],
       word2int_m = (\<lambda>_. - 1)(16002220 := 0, 6335077 := 1),
       size_m = 2, nwords_m = 0, nlabels_m = 0, ntokens_m = 3, pdiscard_m = [],
       quant_m = False, quantidx_m = []\<rparr>"
  by (simp add: add_def find_def find_loop.simps hashes Dictionary_def Let_def args0_def
      bump_def new_entry_def)

lemma finish_aab:
  "readFromFile_end insertion_sort 30000000 1 1
     \<lparr>args_m = args0,
       words_m = [\<lparr>word = ''a'', count = 2, type = entry_word, subwords = []\<rparr>,
                  \<lparr>word = ''b'', count = 1, type = entry_word, subwords = []\<rparr>],
       word2int_m = (\<lambda>_. - 1)(16002220 := 0, 6335077 := 1),
       size_m = 2, nwords_m = 0, nlabels_m = 0, ntokens_m = 3, pdiscard_m = [],
       quant_m = False, quantidx_m = []\<rparr> = Some dict_fin"
  by (simp add: readFromFile_end_def threshold_def insertion_sort_def entry_less_def type_rank_def
      below_cutoff_def index_entry_def find_def find_loop.simps hashes Let_def
      initTableDiscard_def initNgrams_def initNgrams_loop.simps computeNgrams_def
      computeNgrams_loop.simps ngram_loop.simps cont_loop.simps is_continuation_def size_t_of_def
      ngram_id_def hashes_ab BOW_def EOW_def args0_def dict_fin_def)

lemma prune_fin:
  "prune (\<lambda>m. m) 30000000 1024 None (\<lambda>_. 0) dict_fin [1] = Some (dict_compact, [1])"
  by (simp add: prune_def prune_select_def prune_entries_def prune_loop.simps getType_def
      find_def find_loop.simps hashes dict_fin_def dict_compact_def Let_def)

lemma save_compact: "save 1 (\<lambda>q. q) dict_compact = Some bytes_compact"
  by (simp add: save_def save_loop.simps dict_compact_def bytes_compact_def written_small Let_def)

lemma recomputed_compact:
  "initNgrams (uncached dict_compact) =
     Some (dict_compact\<lparr>words_m :=
       [\<lparr>word = ''b'', count = 1, type = entry_word, subwords = [0, 495744]\<rparr>]\<rparr>)"
  by (simp add: initNgrams_def initNgrams_loop.simps computeNgrams_def computeNgrams_loop.simps
      ngram_loop.simps cont_loop.simps is_continuation_def size_t_of_def ngram_id_def hashes_ab
      BOW_def EOW_def bare_def uncached_def dict_compact_def args0_def)

lemma storable_compact: "storable 30000000 dict_compact"
  by (simp add: storable_def dict_compact_def int32_range_def int64_range_def)

lemma load_compact:
  "\<exists>d' rest. load 30000000 1 (Dictionary args0) bytes_compact = Some (d', rest) \<and>
     words_m d' = [\<lparr>word = ''b'', count = 1, type = entry_word, subwords = [0, 495744]\<rparr>]"
proof -
  have "\<exists>bytes d' rest. save 1 (\<lambda>q. q) dict_compact = Some bytes \<and>
      load 30000000 1 (Dictionary args0) bytes = Some (d', rest) \<and>
      words_m d' = words_m (dict_compact\<lparr>words_m :=
       [\<lparr>word = ''b'', count = 1, type = entry_word, subwords = [0, 495744]\<rparr>]\<rparr>)"
    by (rule load_saved [OF storable_compact _ _ _ _ _ _ _ recomputed_compact])
       (simp_all add: Dictionary_def dict_compact_def)
  then obtain bytes d' rest where a: "save 1 (\<lambda>q. q) dict_compact = Some bytes"
    "load 30000000 1 (Dictionary args0) bytes = Some (d', rest)"
    "words_m d' = [\<lparr>word = ''b'', count = 1, type = entry_word, subwords = [0, 495744]\<rparr>]"
    by auto
  from a(1) have "bytes = bytes_compact" by (simp only: save_compact option.inject)
  with a(2,3) show ?thesis by (intro exI [of _ d'] exI [of _ rest]) simp
qed

text \<open>
  Claim C2 fails on the code for a finalized dictionary that \<^verbatim>\<open>prune\<close> has compacted.
  \<^verbatim>\<open>readFromFile\<close> and \<^verbatim>\<open>load\<close> call \<^verbatim>\<open>initNgrams\<close> when they have built the store;
  \<^verbatim>\<open>prune\<close> moves the surviving entries with the subwords they hold and changes
  \<^verbatim>\<open>nwords_\<close>, and does not.  From the tokens a, a, b the end of \<^verbatim>\<open>readFromFile\<close> leaves
  the word b at position 1 with the subwords 1 and \<open>2 + 495743\<close>, and \<^verbatim>\<open>save\<close> and
  \<^verbatim>\<open>load\<close> at this point give back the entries as they are; \<^verbatim>\<open>prune\<close> with the
  selected id 1 moves it to position 0 with these subwords and sets \<^verbatim>\<open>nwords_\<close> to 1;
  \<^verbatim>\<open>save\<close> and \<^verbatim>\<open>load\<close> give back the same word, count and type, and \<^verbatim>\<open>load\<close> computes
  the subwords 0 and \<open>1 + 495743\<close>.
\<close>

theorem save_load_after_prune:
  "Option.bind (add_tokens 30000000 (Dictionary args0) [''a'', ''a'', ''b''])
     (readFromFile_end insertion_sort 30000000 1 1) = Some dict_fin \<and>
   finalized 30000000 dict_fin \<and>
   (\<exists>bytes d' rest. save 1 (\<lambda>q. q) dict_fin = Some bytes \<and>
      load 30000000 1 (Dictionary args0) bytes = Some (d', rest) \<and>
      words_m d' = words_m dict_fin) \<and>
   prune (\<lambda>m. m) 30000000 1024 None (\<lambda>_. 0) dict_fin [1] = Some (dict_compact, [1]) \<and>
   map subwords (words_m dict_compact) = [[1, 495745]] \<and>
   save 1 (\<lambda>q. q) dict_compact = Some bytes_compact \<and>
   (\<exists>d' rest. load 30000000 1 (Dictionary args0) bytes_compact = Some (d', rest) \<and>
      map (\<lambda>e. (word e, count e, type e)) (words_m d') =
        map (\<lambda>e. (word e, count e, type e)) (words_m dict_compact) \<and>
      map subwords (words_m d') = [[0, 495744]])"
proof -
  have f: "finalized 30000000 dict_fin"
    by (rule readFromFile_end_finalized [OF insertion_sort_contract _ _ _ _ _ _ finish_aab])
       (simp_all add: int64_range_def)
  from load_compact obtain d' rest where
    l: "load 30000000 1 (Dictionary args0) bytes_compact = Some (d', rest)"
    "words_m d' = [\<lparr>word = ''b'', count = 1, type = entry_word, subwords = [0, 495744]\<rparr>]"
    by blast
  have "map (\<lambda>e. (word e, count e, type e)) (words_m d') =
        map (\<lambda>e. (word e, count e, type e)) (words_m dict_compact)"
    "map subwords (words_m d') = [[0, 495744]]"
    by (simp_all add: l(2) dict_compact_def)
  with l(1) have "\<exists>d' rest. load 30000000 1 (Dictionary args0) bytes_compact = Some (d', rest) \<and>
      map (\<lambda>e. (word e, count e, type e)) (words_m d') =
        map (\<lambda>e. (word e, count e, type e)) (words_m dict_compact) \<and>
      map subwords (words_m d') = [[0, 495744]]"
    by (intro exI [of _ d'] exI [of _ rest] conjI)
  moreover have "map subwords (words_m dict_compact) = [[1, 495745]]"
    by (simp add: dict_compact_def)
  moreover have "Option.bind (add_tokens 30000000 (Dictionary args0) [''a'', ''a'', ''b''])
     (readFromFile_end insertion_sort 30000000 1 1) = Some dict_fin"
    by (simp only: read_aab bind.bind_lunit finish_aab)
  moreover have "\<exists>bytes d' rest. save 1 (\<lambda>q. q) dict_fin = Some bytes \<and>
      load 30000000 1 (Dictionary args0) bytes = Some (d', rest) \<and>
      words_m d' = words_m dict_fin"
    by (rule load_saved_finalized [OF f]) (simp_all add: Dictionary_def dict_fin_def)
  ultimately show ?thesis
    using f prune_fin save_compact by (intro conjI)
qed

end
